theory Spec2Isabelle
  imports Complex_Main
begin

section \<open>Evolutionary search of \<^verbatim>\<open>archai/nlp/nas/evolution.py\<close>\<close>

text \<open>
  A shallow embedding of class \<^verbatim>\<open>Evolution\<close>. A gene is a Python list of values,
  one per search dimension; a gene key is the string \<^verbatim>\<open>Converter.gene_to_key\<close> returns.
  Python exceptions are values of \<open>error\<close>; a function that can raise returns
  \<open>error + 'a\<close>, with \<open>Inl\<close> for the exception. Python's floats are real numbers
  here, and the values the random number generators return are arguments.
\<close>

type_synonym gene = "int list"
type_synonym key = string

datatype error = AssertionError | ValueError | IndexError | ZeroDivisionError

type_synonym 'a result = "error + 'a"

subsection \<open>Python primitives\<close>

text \<open>\<^verbatim>\<open>xs[i]\<close> for a non-negative index: out of range raises IndexError.\<close>

definition index :: "'a list \<Rightarrow> nat \<Rightarrow> 'a result" where
  "index xs i = (if i < length xs then Inr (xs ! i) else Inl IndexError)"

text \<open>
  \<^verbatim>\<open>random.choices(xs)[0]\<close> is \<^verbatim>\<open>xs[floor(random() * len(xs))]\<close>; the argument \<open>r\<close> is
  the value \<^verbatim>\<open>random()\<close> returned, a number of the interval \<open>[0, 1)\<close>. On an empty list
  the index 0 is out of range.
\<close>

definition choices :: "'a list \<Rightarrow> real \<Rightarrow> 'a result" where
  "choices xs r = index xs (nat \<lfloor>r * real (length xs)\<rfloor>)"

text \<open>
  A loop \<^verbatim>\<open>for k in ks: out.append(f(k))\<close>: the values in order, or the first exception.
\<close>

fun for_each :: "('a \<Rightarrow> 'b result) \<Rightarrow> 'a list \<Rightarrow> 'b list result" where
  "for_each f [] = Inr []"
| "for_each f (k # ks) =
     (case f k of
        Inl e \<Rightarrow> Inl e
      | Inr v \<Rightarrow> (case for_each f ks of Inl e \<Rightarrow> Inl e | Inr vs \<Rightarrow> Inr (v # vs)))"

subsection \<open>The attributes of \<^verbatim>\<open>Evolution\<close>\<close>

text \<open>
  A call of a collaborator that measures a model: \<open>Profile\<close> is the measurement
  \<^verbatim>\<open>_profile\<close> makes of an extremal gene, \<open>MeasureLatency\<close> the latency measurement of
  \<^verbatim>\<open>_check_constraints\<close>, \<open>Evaluate\<close> the four measurements \<^verbatim>\<open>_calculate_constraints\<close>
  makes for one gene.
\<close>

datatype call = Profile gene | MeasureLatency gene | Evaluate gene

text \<open>The dictionary \<^verbatim>\<open>self.pareto\<close>, one list per key.\<close>

record frontier =
  pareto_population :: "gene list"
  pareto_params :: "int list"
  pareto_total_params :: "int list"
  pareto_latencies :: "real list"
  pareto_memories :: "real list"

text \<open>
  The attributes of \<^verbatim>\<open>self\<close> the search reads and writes. The sizes are natural
  numbers. \<open>counts\<close> is the \<^verbatim>\<open>Counter\<close>: a key it does not hold counts 0. \<open>calls\<close> is not an
  attribute: it records, in order, the measurements the collaborators were asked
  for. The paths, the model type and the measurement options are handed to the
  collaborators unchanged and are left out.
\<close>

record evolution =
  n_iter :: nat
  population_size :: nat
  parent_size :: nat
  mutation_size :: nat
  mutation_prob :: real
  crossover_size :: nat
  crossover_prob :: real
  param_constraint_lower :: real
  param_constraint_upper :: real
  latency_constraint_upper :: "real option"
  allowed_genes :: "int list list"
  pareto :: frontier
  all_population :: "gene list"
  all_params :: "int list"
  all_total_params :: "int list"
  all_latencies :: "real list"
  all_memories :: "real list"
  counts :: "key \<rightharpoonup> nat"
  calls :: "call list"

text \<open>\<^verbatim>\<open>self.gene_size = len(self.allowed_genes)\<close>\<close>

definition gene_size :: "evolution \<Rightarrow> nat" where
  "gene_size s = length (allowed_genes s)"

text \<open>
  The collaborators, whose code is outside \<^verbatim>\<open>evolution.py\<close>: the converter's key, the
  analytical parameter formula and the measurements (each applied to the model
  the gene's configuration gives), and the Pareto routine. A measurement is a
  function of the gene: measuring a gene again gives the same value.
\<close>

record collaborators =
  gene_to_key :: "gene \<Rightarrow> key"
  formula_total :: "gene \<Rightarrow> int"
  measure_decoder_params :: "gene \<Rightarrow> int"
  measure_total_params :: "gene \<Rightarrow> int"
  measure_inference_latency :: "gene \<Rightarrow> real"
  measure_peak_memory :: "gene \<Rightarrow> real"
  find_pareto_points :: "(real \<times> real \<times> real) list \<Rightarrow> bool \<Rightarrow> nat list"

subsection \<open>Variation operators\<close>

text \<open>
  \<^verbatim>\<open>_mutation\<close>: in dimension \<open>k\<close>, \<open>u k\<close> is the value of \<^verbatim>\<open>np.random.uniform()\<close> and
  \<open>r k\<close> the draw of \<^verbatim>\<open>random.choices\<close>, which is made only when \<open>u k\<close> is below
  \<^verbatim>\<open>mutation_prob\<close>.
\<close>

definition mutation :: "evolution \<Rightarrow> (nat \<Rightarrow> real) \<Rightarrow> (nat \<Rightarrow> real) \<Rightarrow> gene \<Rightarrow> gene result" where
  "mutation s u r gene =
     for_each (\<lambda>k. if u k < mutation_prob s
                    then choices (allowed_genes s ! k) (r k)
                    else index gene k)
       [0 ..< gene_size s]"

text \<open>\<^verbatim>\<open>_crossover\<close>: \<open>u k\<close> is the value of \<^verbatim>\<open>np.random.uniform()\<close> in dimension \<open>k\<close>.\<close>

definition crossover :: "evolution \<Rightarrow> (nat \<Rightarrow> real) \<Rightarrow> gene list \<Rightarrow> gene result" where
  "crossover s u genes =
     for_each (\<lambda>k. if u k < crossover_prob s
                    then (case index genes 0 of Inl e \<Rightarrow> Inl e | Inr g \<Rightarrow> index g k)
                    else (case index genes 1 of Inl e \<Rightarrow> Inl e | Inr g \<Rightarrow> index g k))
       [0 ..< gene_size s]"

subsection \<open>Construction\<close>

definition empty_frontier :: frontier where
  "empty_frontier =
     \<lparr>pareto_population = [], pareto_params = [], pareto_total_params = [],
      pareto_latencies = [], pareto_memories = []\<rparr>"




subsection \<open>Constraints and measurements\<close>

text \<open>
  \<^verbatim>\<open>_check_constraints\<close>: the verdict, and the state with the latency measurement
  recorded when it was made.
\<close>

definition check_constraints :: "collaborators \<Rightarrow> evolution \<Rightarrow> gene \<Rightarrow> bool \<times> evolution" where
  "check_constraints c s gene =
     (let total_params_analytical = real_of_int (formula_total c gene) in
      if total_params_analytical < param_constraint_lower s then (False, s)
      else if total_params_analytical > param_constraint_upper s then (False, s)
      else (case latency_constraint_upper s of
              None \<Rightarrow> (True, s)
            | Some upper \<Rightarrow>
                (let latency = measure_inference_latency c gene;
                     s' = s\<lparr>calls := calls s @ [MeasureLatency gene]\<rparr>
                 in if latency > upper then (False, s') else (True, s'))))"

text \<open>
  \<^verbatim>\<open>_calculate_constraints\<close>: decoder parameters, total parameters, latencies and
  memories of the genes, in order. The four lists have the length of \<open>genes\<close>, so
  the assertions at its end hold.
\<close>

definition calculate_constraints ::
  "collaborators \<Rightarrow> evolution \<Rightarrow> gene list \<Rightarrow>
   (int list \<times> int list \<times> real list \<times> real list) \<times> evolution" where
  "calculate_constraints c s genes =
     ((map (measure_decoder_params c) genes,
       map (measure_total_params c) genes,
       map (measure_inference_latency c) genes,
       map (measure_peak_memory c) genes),
      s\<lparr>calls := calls s @ map Evaluate genes\<rparr>)"

subsection \<open>Pareto frontier\<close>

text \<open>
  The array \<^verbatim>\<open>points\<close> of \<^verbatim>\<open>_update_pareto_front\<close>, one row per entry of the history.
  \<^verbatim>\<open>max\<close> of an empty list raises ValueError, and so does \<^verbatim>\<open>np.concatenate\<close> on
  columns of different lengths.
\<close>

definition history_points :: "evolution \<Rightarrow> (real \<times> real \<times> real) list result" where
  "history_points s =
     (if all_params s = [] then Inl ValueError
      else
        (let xs = map (\<lambda>p. real_of_int (Max (set (all_params s)) - p)) (all_params s);
             ys = all_latencies s;
             zs = all_memories s
         in if length ys \<noteq> length xs \<or> length zs \<noteq> length xs then Inl ValueError
            else Inr (zip xs (zip ys zs))))"

definition update_pareto_front :: "collaborators \<Rightarrow> evolution \<Rightarrow> bool \<Rightarrow> evolution result" where
  "update_pareto_front c s is_decreasing =
     (case history_points s of
        Inl e \<Rightarrow> Inl e
      | Inr points \<Rightarrow>
          (let p_inds = find_pareto_points c points is_decreasing in
           if length points \<noteq> length (all_population s) then Inl AssertionError
           else if length points \<noteq> length (all_params s) then Inl AssertionError
           else if length points \<noteq> length (all_total_params s) then Inl AssertionError
           else if length points \<noteq> length (all_latencies s) then Inl AssertionError
           else if length points \<noteq> length (all_memories s) then Inl AssertionError
           else
             (case for_each (index (all_population s)) p_inds of Inl e \<Rightarrow> Inl e
              | Inr population' \<Rightarrow>
             (case for_each (index (all_params s)) p_inds of Inl e \<Rightarrow> Inl e
              | Inr params' \<Rightarrow>
             (case for_each (index (all_total_params s)) p_inds of Inl e \<Rightarrow> Inl e
              | Inr total_params' \<Rightarrow>
             (case for_each (index (all_latencies s)) p_inds of Inl e \<Rightarrow> Inl e
              | Inr latencies' \<Rightarrow>
             (case for_each (index (all_memories s)) p_inds of Inl e \<Rightarrow> Inl e
              | Inr memories' \<Rightarrow>
                  Inr (s\<lparr>pareto :=
                         \<lparr>pareto_population = population',
                          pareto_params = params',
                          pareto_total_params = total_params',
                          pareto_latencies = latencies',
                          pareto_memories = memories'\<rparr>\<rparr>))))))))"

subsection \<open>Selection weights\<close>

text \<open>\<^verbatim>\<open>self.counts[key]\<close>: a \<^verbatim>\<open>Counter\<close> gives 0 for a key it does not hold.\<close>

definition count_of :: "evolution \<Rightarrow> key \<Rightarrow> nat" where
  "count_of s k = (case counts s k of None \<Rightarrow> 0 | Some n \<Rightarrow> n)"

text \<open>Python's \<^verbatim>\<open>a / b\<close> on numbers.\<close>

definition py_div :: "real \<Rightarrow> real \<Rightarrow> real result" where
  "py_div a b = (if b = 0 then Inl ZeroDivisionError else Inr (a / b))"

text \<open>
  \<^verbatim>\<open>_calculate_weighted_count\<close>, over the reals. \<^verbatim>\<open>max\<close> of an empty list raises
  ValueError. The last division is numpy's, which does not raise.
\<close>

definition calculate_weighted_count :: "collaborators \<Rightarrow> evolution \<Rightarrow> real list result" where
  "calculate_weighted_count c s =
     (let pareto_counts =
            map (\<lambda>gene. count_of s (gene_to_key c gene)) (pareto_population (pareto s))
      in if pareto_counts = [] then Inl ValueError
         else
           (let counts_max = Max (set pareto_counts);
                counts_min = Min (set pareto_counts);
                counts_range =
                  (if counts_max = counts_min then counts_max else counts_max - counts_min)
            in case for_each (\<lambda>count. py_div (real count - real counts_min) (real counts_range))
                      pareto_counts of
                 Inl e \<Rightarrow> Inl e
               | Inr scaled_counts \<Rightarrow>
                   (case for_each (\<lambda>scaled_count. py_div 1 (scaled_count + 1)) scaled_counts of
                      Inl e \<Rightarrow> Inl e
                    | Inr count_weights \<Rightarrow>
                        (let count_weights' =
                               map (\<lambda>w. w / sum_list count_weights) count_weights
                         in if length count_weights' \<noteq> length (pareto_population (pareto s))
                            then Inl AssertionError
                            else Inr count_weights'))))"

subsection \<open>Occurrence counter\<close>

text \<open>\<^verbatim>\<open>_is_seen_before\<close>: whether the key is one of \<^verbatim>\<open>self.counts.keys()\<close>.\<close>

definition is_seen_before :: "collaborators \<Rightarrow> evolution \<Rightarrow> gene \<Rightarrow> bool" where
  "is_seen_before c s gene = (counts s (gene_to_key c gene) \<noteq> None)"

definition update_gene_count :: "collaborators \<Rightarrow> evolution \<Rightarrow> gene \<Rightarrow> evolution" where
  "update_gene_count c s gene =
     (let key = gene_to_key c gene
      in s\<lparr>counts := (counts s)(key \<mapsto> count_of s key + 1)\<rparr>)"

fun update_population_count :: "collaborators \<Rightarrow> evolution \<Rightarrow> gene list \<Rightarrow> evolution" where
  "update_population_count c s [] = s"
| "update_population_count c s (gene # population) =
     update_population_count c (update_gene_count c s gene) population"

subsection \<open>Initial population\<close>

text \<open>
  The loop of \<^verbatim>\<open>sample_random_population\<close>. Each element of the list of draws holds
  the values \<^verbatim>\<open>random.choices\<close> draws in one iteration, one per dimension. The
  loop has no bound: when the draws supplied are used up before \<open>n_samples\<close>
  genes are collected, the result is \<open>None\<close>.
\<close>

fun sample_loop ::
  "collaborators \<Rightarrow> nat \<Rightarrow> (nat \<Rightarrow> real) list \<Rightarrow> evolution \<Rightarrow> nat \<Rightarrow> gene list \<Rightarrow>
   (gene list \<times> evolution) result option" where
  "sample_loop c n_samples [] s i population =
     (if i < n_samples then None else Some (Inr (population, s)))"
| "sample_loop c n_samples (r # rs) s i population =
     (if i < n_samples then
        (case for_each (\<lambda>k. choices (allowed_genes s ! k) (r k)) [0 ..< gene_size s] of
           Inl e \<Rightarrow> Some (Inl e)
         | Inr sampled_gene \<Rightarrow>
             (let (valid, s') = check_constraints c s sampled_gene
              in if valid then sample_loop c n_samples rs s' (i + 1) (population @ [sampled_gene])
                 else sample_loop c n_samples rs s' i population))
      else Some (Inr (population, s)))"

definition sample_random_population ::
  "collaborators \<Rightarrow> evolution \<Rightarrow> nat \<Rightarrow> (nat \<Rightarrow> real) list \<Rightarrow>
   (gene list \<times> evolution) result option" where
  "sample_random_population c s n_samples rs = sample_loop c n_samples rs s 0 []"

subsection \<open>The search loop\<close>

text \<open>One entry of \<^verbatim>\<open>logs\<close>, as pickled at the end of a generation.\<close>

record generation_log =
  log_population :: "gene list"
  log_params :: "int list"
  log_total_params :: "int list"
  log_latencies :: "real list"
  log_memories :: "real list"
  log_parents :: "gene list"
  log_pareto :: frontier

text \<open>The local variables of \<^verbatim>\<open>search\<close> that live across generations.\<close>

record locals =
  population :: "gene list"
  parents_params :: "int list"
  parents_total_params :: "int list"
  parents_latencies :: "real list"
  parents_memories :: "real list"
  logs :: "generation_log list"

text \<open>
  The random draws of one generation. \<open>selected_idx j\<close> is the \<open>j\<close>-th index
  \<^verbatim>\<open>np.random.choice\<close> returns. A mutation draw holds the value
  \<^verbatim>\<open>random.choices(parents_population)\<close> draws and the draws of \<^verbatim>\<open>_mutation\<close>; a
  crossover draw holds the two positions \<^verbatim>\<open>random.sample(parents_population, 2)\<close>
  picks and the draws of \<^verbatim>\<open>_crossover\<close>. Each list has one element per iteration
  of its \<^verbatim>\<open>while\<close> loop.
\<close>

type_synonym mutation_draw = "real \<times> (nat \<Rightarrow> real) \<times> (nat \<Rightarrow> real)"
type_synonym crossover_draw = "(nat \<times> nat) \<times> (nat \<Rightarrow> real)"

record draws =
  selected_idx :: "nat \<Rightarrow> nat"
  mutation_draws :: "mutation_draw list"
  crossover_draws :: "crossover_draw list"

text \<open>
  \<^verbatim>\<open>random.sample(xs, 2)\<close>: ValueError when \<open>xs\<close> has fewer than two elements;
  otherwise the elements at the two positions picked.
\<close>

definition sample2 :: "'a list \<Rightarrow> nat \<times> nat \<Rightarrow> 'a list result" where
  "sample2 xs ij =
     (if length xs < 2 then Inl ValueError
      else (case index xs (fst ij) of
              Inl e \<Rightarrow> Inl e
            | Inr a \<Rightarrow> (case index xs (snd ij) of Inl e \<Rightarrow> Inl e | Inr b \<Rightarrow> Inr [a, b])))"

text \<open>
  Lines 612 to 634: the members of the population from \<open>idx\<close> on are measured,
  the parents' values are put in front, and the new values join the history.
\<close>

definition evaluate_population ::
  "collaborators \<Rightarrow> nat \<Rightarrow> evolution \<Rightarrow> locals \<Rightarrow>
   ((int list \<times> int list \<times> real list \<times> real list) \<times> evolution) result" where
  "evaluate_population c i s l =
     (let idx = (if i = 0 then 0 else parent_size s);
          ((population_params_unseen, population_total_params_unseen,
            population_latencies_unseen, population_memories_unseen), s') =
             calculate_constraints c s (drop idx (population l));
          population_params = parents_params l @ population_params_unseen;
          population_total_params = parents_total_params l @ population_total_params_unseen;
          population_latencies = parents_latencies l @ population_latencies_unseen;
          population_memories = parents_memories l @ population_memories_unseen
      in if length population_params \<noteq> population_size s' then Inl AssertionError
         else if length population_total_params \<noteq> population_size s' then Inl AssertionError
         else if length population_latencies \<noteq> population_size s' then Inl AssertionError
         else if length population_memories \<noteq> population_size s' then Inl AssertionError
         else Inr ((population_params, population_total_params,
                    population_latencies, population_memories),
                   s'\<lparr>all_params := all_params s' @ population_params_unseen,
                      all_total_params := all_total_params s' @ population_total_params_unseen,
                      all_latencies := all_latencies s' @ population_latencies_unseen,
                      all_memories := all_memories s' @ population_memories_unseen\<rparr>))"

text \<open>
  Lines 642 to 651: the weights, the indices drawn and the parents they select
  from the frontier.
\<close>

definition select_parents ::
  "collaborators \<Rightarrow> evolution \<Rightarrow> (nat \<Rightarrow> nat) \<Rightarrow>
   (gene list \<times> int list \<times> int list \<times> real list \<times> real list) result" where
  "select_parents c s sel =
     (case calculate_weighted_count c s of
        Inl e \<Rightarrow> Inl e
      | Inr weights \<Rightarrow>
          (let selected = map sel [0 ..< parent_size s] in
           case for_each (index (pareto_population (pareto s))) selected of Inl e \<Rightarrow> Inl e
           | Inr parents_population \<Rightarrow>
          (case for_each (index (pareto_params (pareto s))) selected of Inl e \<Rightarrow> Inl e
           | Inr parents_params' \<Rightarrow>
          (case for_each (index (pareto_total_params (pareto s))) selected of Inl e \<Rightarrow> Inl e
           | Inr parents_total_params' \<Rightarrow>
          (case for_each (index (pareto_latencies (pareto s))) selected of Inl e \<Rightarrow> Inl e
           | Inr parents_latencies' \<Rightarrow>
          (case for_each (index (pareto_memories (pareto s))) selected of Inl e \<Rightarrow> Inl e
           | Inr parents_memories' \<Rightarrow>
               Inr (parents_population, parents_params', parents_total_params',
                    parents_latencies', parents_memories')))))))"

text \<open>
  The loop of lines 655 to 661. It has no bound: \<open>None\<close> when the draws supplied
  are used up before \<^verbatim>\<open>mutation_size\<close> children are accepted.
\<close>

fun mutation_loop ::
  "collaborators \<Rightarrow> gene list \<Rightarrow> mutation_draw list \<Rightarrow> evolution \<Rightarrow> nat \<Rightarrow> gene list \<Rightarrow>
   (gene list \<times> evolution) result option" where
  "mutation_loop c parents_population [] s k mutated_population =
     (if k < mutation_size s then None else Some (Inr (mutated_population, s)))"
| "mutation_loop c parents_population (d # ds) s k mutated_population =
     (if k < mutation_size s then
        (case choices parents_population (fst d) of
           Inl e \<Rightarrow> Some (Inl e)
         | Inr parent \<Rightarrow>
             (case mutation s (fst (snd d)) (snd (snd d)) parent of
                Inl e \<Rightarrow> Some (Inl e)
              | Inr mutated_gene \<Rightarrow>
                  (let (valid, s') = check_constraints c s mutated_gene
                   in if valid \<and> \<not> is_seen_before c s' mutated_gene
                      then mutation_loop c parents_population ds s' (k + 1)
                             (mutated_population @ [mutated_gene])
                      else mutation_loop c parents_population ds s' k mutated_population)))
      else Some (Inr (mutated_population, s)))"

text \<open>The loop of lines 665 to 671, without a bound as well.\<close>

fun crossover_loop ::
  "collaborators \<Rightarrow> gene list \<Rightarrow> crossover_draw list \<Rightarrow> evolution \<Rightarrow> nat \<Rightarrow> gene list \<Rightarrow>
   (gene list \<times> evolution) result option" where
  "crossover_loop c parents_population [] s k crossovered_population =
     (if k < crossover_size s then None else Some (Inr (crossovered_population, s)))"
| "crossover_loop c parents_population (d # ds) s k crossovered_population =
     (if k < crossover_size s then
        (case sample2 parents_population (fst d) of
           Inl e \<Rightarrow> Some (Inl e)
         | Inr genes \<Rightarrow>
             (case crossover s (snd d) genes of
                Inl e \<Rightarrow> Some (Inl e)
              | Inr crossovered_gene \<Rightarrow>
                  (let (valid, s') = check_constraints c s crossovered_gene
                   in if valid \<and> \<not> is_seen_before c s' crossovered_gene
                      then crossover_loop c parents_population ds s' (k + 1)
                             (crossovered_population @ [crossovered_gene])
                      else crossover_loop c parents_population ds s' k crossovered_population)))
      else Some (Inr (crossovered_population, s)))"

text \<open>
  Lines 692 to 696: the next population, its assertion, the counter and the
  history of genes.
\<close>

definition next_population ::
  "collaborators \<Rightarrow> evolution \<Rightarrow> gene list \<Rightarrow> gene list \<Rightarrow> gene list \<Rightarrow>
   (gene list \<times> evolution) result" where
  "next_population c s parents_population mutated_population crossovered_population =
     (let population' = parents_population @ mutated_population @ crossovered_population
      in if length population' \<noteq> population_size s then Inl AssertionError
         else
           (let s' = update_population_count c s population'
            in Inr (population',
                    s'\<lparr>all_population :=
                         all_population s' @ mutated_population @ crossovered_population\<rparr>)))"

text \<open>
  The body of the loop \<^verbatim>\<open>for i in range(self.n_iter)\<close>. Plots and files are written
  by collaborators and are left out.
\<close>

definition search_iter ::
  "collaborators \<Rightarrow> draws \<Rightarrow> nat \<Rightarrow> evolution \<times> locals \<Rightarrow> (evolution \<times> locals) result option" where
  "search_iter c d i sl =
     (let (s, l) = sl in
      case evaluate_population c i s l of
        Inl e \<Rightarrow> Some (Inl e)
      | Inr ((population_params, population_total_params,
              population_latencies, population_memories), s1) \<Rightarrow>
      (case update_pareto_front c s1 True of
        Inl e \<Rightarrow> Some (Inl e)
      | Inr s2 \<Rightarrow>
      (case select_parents c s2 (selected_idx d) of
        Inl e \<Rightarrow> Some (Inl e)
      | Inr (parents_population, parents_params', parents_total_params',
             parents_latencies', parents_memories') \<Rightarrow>
      (case mutation_loop c parents_population (mutation_draws d) s2 0 [] of
        None \<Rightarrow> None
      | Some (Inl e) \<Rightarrow> Some (Inl e)
      | Some (Inr (mutated_population, s3)) \<Rightarrow>
      (case crossover_loop c parents_population (crossover_draws d) s3 0 [] of
        None \<Rightarrow> None
      | Some (Inl e) \<Rightarrow> Some (Inl e)
      | Some (Inr (crossovered_population, s4)) \<Rightarrow>
      (case next_population c s4 parents_population mutated_population
              crossovered_population of
        Inl e \<Rightarrow> Some (Inl e)
      | Inr (population', s5) \<Rightarrow>
          Some (Inr (s5,
            \<lparr>population = population',
             parents_params = parents_params',
             parents_total_params = parents_total_params',
             parents_latencies = parents_latencies',
             parents_memories = parents_memories',
             logs = logs l @
               [\<lparr>log_population = population l,
                 log_params = population_params,
                 log_total_params = population_total_params,
                 log_latencies = population_latencies,
                 log_memories = population_memories,
                 log_parents = parents_population,
                 log_pareto = pareto s2\<rparr>]\<rparr>))))))))"

text \<open>The generations \<open>is\<close>, in order, from the state \<open>sl\<close>; \<open>d i\<close> are the draws of generation \<open>i\<close>.\<close>

fun search_from ::
  "collaborators \<Rightarrow> (nat \<Rightarrow> draws) \<Rightarrow> nat list \<Rightarrow> evolution \<times> locals \<Rightarrow>
   (evolution \<times> locals) result option" where
  "search_from c d [] sl = Some (Inr sl)"
| "search_from c d (i # is) sl =
     (case search_iter c (d i) i sl of
        None \<Rightarrow> None
      | Some (Inl e) \<Rightarrow> Some (Inl e)
      | Some (Inr sl') \<Rightarrow> search_from c d is sl')"

text \<open>
  The first lines of \<^verbatim>\<open>search\<close>, up to the loop: the initial population is sampled
  with the draws \<open>rs\<close>, becomes the history of genes and is counted.
\<close>

definition search_start ::
  "collaborators \<Rightarrow> evolution \<Rightarrow> (nat \<Rightarrow> real) list \<Rightarrow> (evolution \<times> locals) result option" where
  "search_start c s rs =
     (case sample_random_population c s (population_size s) rs of
        None \<Rightarrow> None
      | Some (Inl e) \<Rightarrow> Some (Inl e)
      | Some (Inr (population', s1)) \<Rightarrow>
          Some (Inr (update_population_count c (s1\<lparr>all_population := population'\<rparr>) population',
            \<lparr>population = population',
             parents_params = [],
             parents_total_params = [],
             parents_latencies = [],
             parents_memories = [],
             logs = []\<rparr>)))"

text \<open>
  The state at the head of generation \<open>i\<close> of \<^verbatim>\<open>search\<close>: after the start and the
  generations before \<open>i\<close>.
\<close>

definition generation ::
  "collaborators \<Rightarrow> evolution \<Rightarrow> (nat \<Rightarrow> real) list \<Rightarrow> (nat \<Rightarrow> draws) \<Rightarrow> nat \<Rightarrow>
   (evolution \<times> locals) result option" where
  "generation c s rs d i =
     (case search_start c s rs of
        None \<Rightarrow> None
      | Some (Inl e) \<Rightarrow> Some (Inl e)
      | Some (Inr sl) \<Rightarrow> search_from c d [0 ..< i] sl)"

text \<open>\<^verbatim>\<open>search\<close>: all \<^verbatim>\<open>n_iter\<close> generations. The job files written at the end are left out.\<close>

definition search ::
  "collaborators \<Rightarrow> evolution \<Rightarrow> (nat \<Rightarrow> real) list \<Rightarrow> (nat \<Rightarrow> draws) \<Rightarrow>
   (evolution \<times> locals) result option" where
  "search c s rs d = generation c s rs d (n_iter s)"

subsection \<open>Predicates of the statements\<close>

text \<open>A gene of the search space: one value per dimension, each an allowed one.\<close>

definition in_space :: "evolution \<Rightarrow> gene \<Rightarrow> bool" where
  "in_space s gene = list_all2 (\<lambda>v allowed. v \<in> set allowed) gene (allowed_genes s)"

text \<open>The genes \<^verbatim>\<open>_calculate_constraints\<close> has measured so far, in order.\<close>

definition evaluated :: "evolution \<Rightarrow> gene list" where
  "evaluated s =
     concat (map (\<lambda>x. case x of Evaluate gene \<Rightarrow> [gene] | _ \<Rightarrow> []) (calls s))"

text \<open>The attributes \<^verbatim>\<open>__init__\<close> sets from its arguments are the same in both states.\<close>

definition same_settings :: "evolution \<Rightarrow> evolution \<Rightarrow> bool" where
  "same_settings s s' =
     (n_iter s' = n_iter s \<and> population_size s' = population_size s \<and>
      parent_size s' = parent_size s \<and> mutation_size s' = mutation_size s \<and>
      mutation_prob s' = mutation_prob s \<and> crossover_size s' = crossover_size s \<and>
      crossover_prob s' = crossover_prob s \<and>
      param_constraint_lower s' = param_constraint_lower s \<and>
      param_constraint_upper s' = param_constraint_upper s \<and>
      latency_constraint_upper s' = latency_constraint_upper s \<and>
      allowed_genes s' = allowed_genes s)"

text \<open>
  What \<^verbatim>\<open>search\<close> relies on from \<^verbatim>\<open>__init__\<close>: the sizes add up and no objective
  value has been recorded.
\<close>

definition fresh :: "evolution \<Rightarrow> bool" where
  "fresh s =
     (population_size s = parent_size s + mutation_size s + crossover_size s \<and>
      all_params s = [] \<and> all_total_params s = [] \<and>
      all_latencies s = [] \<and> all_memories s = [])"

text \<open>
  The state at the head of generation \<open>i\<close>, for a search started in \<open>s0\<close>: the
  settings are those of \<open>s0\<close>; the population has \<^verbatim>\<open>population_size\<close> members; the
  four lists of objective values are equally long and hold the measurements of
  the first genes of the history, in order; the genes of the history beyond
  them are the members of the population from \<open>idx\<close> on, which are not evaluated
  yet, and the genes evaluated since the start are the others; the parents'
  values are \<open>idx\<close> many; every gene of the history is counted and lies in the
  search space, and the population is drawn from the history.
\<close>

definition loop_invariant ::
  "collaborators \<Rightarrow> evolution \<Rightarrow> nat \<Rightarrow> evolution \<Rightarrow> locals \<Rightarrow> bool" where
  "loop_invariant c s0 i s l =
     (let idx = (if i = 0 then 0 else parent_size s); h = length (all_params s)
      in same_settings s0 s \<and>
         population_size s = parent_size s + mutation_size s + crossover_size s \<and>
         length (population l) = population_size s \<and>
         length (all_total_params s) = h \<and>
         length (all_latencies s) = h \<and>
         length (all_memories s) = h \<and>
         all_population s = take h (all_population s) @ drop idx (population l) \<and>
         length (take h (all_population s)) = h \<and>
         all_params s = map (measure_decoder_params c) (take h (all_population s)) \<and>
         all_total_params s = map (measure_total_params c) (take h (all_population s)) \<and>
         all_latencies s = map (measure_inference_latency c) (take h (all_population s)) \<and>
         all_memories s = map (measure_peak_memory c) (take h (all_population s)) \<and>
         evaluated s = evaluated s0 @ take h (all_population s) \<and>
         length (parents_params l) = idx \<and>
         length (parents_total_params l) = idx \<and>
         length (parents_latencies l) = idx \<and>
         length (parents_memories l) = idx \<and>
         list_all (\<lambda>gene. 0 < count_of s (gene_to_key c gene)) (all_population s) \<and>
         list_all (in_space s) (all_population s) \<and>
         list_all (\<lambda>gene. gene \<in> set (all_population s)) (population l))"

subsection \<open>A Pareto routine and a small search space\<close>

text \<open>
  Modelled from the spec: \<^verbatim>\<open>find_pareto_points\<close> of
  \<^verbatim>\<open>archai.nlp.nas.nas_utils.pareto_front\<close> is not among the source files. The spec
  (section 4.3) gives its rule: one sense for all axes, chosen by \<^verbatim>\<open>is_decreasing\<close>;
  a point dominates another iff it is at least as good on every axis and
  strictly better on one; the output is the indices of the points no point
  dominates, so points that tie stay. It serves as the collaborator of the
  example runs below.
\<close>

definition dominates :: "bool \<Rightarrow> real \<times> real \<times> real \<Rightarrow> real \<times> real \<times> real \<Rightarrow> bool" where
  "dominates is_decreasing a b =
     (if is_decreasing
      then fst a \<le> fst b \<and> fst (snd a) \<le> fst (snd b) \<and> snd (snd a) \<le> snd (snd b) \<and>
           (fst a < fst b \<or> fst (snd a) < fst (snd b) \<or> snd (snd a) < snd (snd b))
      else fst b \<le> fst a \<and> fst (snd b) \<le> fst (snd a) \<and> snd (snd b) \<le> snd (snd a) \<and>
           (fst b < fst a \<or> fst (snd b) < fst (snd a) \<or> snd (snd b) < snd (snd a)))"

definition non_dominated :: "(real \<times> real \<times> real) list \<Rightarrow> bool \<Rightarrow> nat list" where
  "non_dominated points is_decreasing =
     filter (\<lambda>i. \<not> list_ex (\<lambda>a. dominates is_decreasing a (points ! i)) points)
       [0 ..< length points]"

text \<open>
  Collaborators of the examples: a gene over the values 0 and 1 has its digits
  as key, and its parameter counts and latency grow with the sum of its values.
\<close>

definition example_collaborators :: collaborators where
  "example_collaborators =
     \<lparr>gene_to_key = map (\<lambda>v. if v = 0 then CHR ''0'' else CHR ''1''),
      formula_total = sum_list,
      measure_decoder_params = sum_list,
      measure_total_params = (\<lambda>gene. sum_list gene + 1),
      measure_inference_latency = (\<lambda>gene. real_of_int (sum_list gene)),
      measure_peak_memory = (\<lambda>gene. 1),
      find_pareto_points = non_dominated\<rparr>"

text \<open>
  What \<^verbatim>\<open>__init__\<close> builds for two dimensions with the values 0 and 1, a population
  of two parents, one mutated and one crossed-over child, and one generation.
\<close>

definition example_evolution :: evolution where
  "example_evolution =
     \<lparr>n_iter = 1, population_size = 4, parent_size = 2, mutation_size = 1,
      mutation_prob = 1 / 2, crossover_size = 1, crossover_prob = 1 / 2,
      param_constraint_lower = 0, param_constraint_upper = 10,
      latency_constraint_upper = None, allowed_genes = [[0, 1], [0, 1]],
      pareto = empty_frontier, all_population = [], all_params = [],
      all_total_params = [], all_latencies = [], all_memories = [],
      counts = Map.empty, calls = [Profile [1, 1], Profile [0, 0]]\<rparr>"

text \<open>Draws: constant ones, and two that differ between dimension 0 and the others.\<close>

definition zero_draws :: "nat \<Rightarrow> real" where
  "zero_draws k = 0"

definition half_draws :: "nat \<Rightarrow> real" where
  "half_draws k = 1 / 2"

definition low_high :: "nat \<Rightarrow> real" where
  "low_high k = (if k = 0 then 1 / 4 else 3 / 4)"

definition high_low :: "nat \<Rightarrow> real" where
  "high_low k = (if k = 0 then 3 / 4 else 1 / 4)"

text \<open>
  The draws of the example's generation: the frontier's points 0 and 1 become
  the parents; the mutation takes parent 0 and redraws dimension 1; the
  crossover samples the parents in order and takes dimension 0 from the first.
\<close>

definition example_draws :: "nat \<Rightarrow> draws" where
  "example_draws i =
     \<lparr>selected_idx = (\<lambda>j. j),
      mutation_draws = [(0, high_low, half_draws)],
      crossover_draws = [((0, 1), low_high)]\<rparr>"

text \<open>The draws of the example's initial population: the genes 00, 11, 10 and 10.\<close>

definition example_samples :: "(nat \<Rightarrow> real) list" where
  "example_samples = [zero_draws, half_draws, high_low, high_low]"

text \<open>
  The states of the example's run: at the head of generation 0, after its
  evaluation, after its frontier update (when the weights are computed), and at
  the head of generation 1.
\<close>

definition example_counted :: evolution where
  "example_counted =
     example_evolution
       \<lparr>all_population := [[0, 0], [1, 1], [1, 0], [1, 0]],
        counts := [''00'' \<mapsto> 1, ''11'' \<mapsto> 1, ''10'' \<mapsto> 2]\<rparr>"

definition example_locals :: locals where
  "example_locals =
     \<lparr>population = [[0, 0], [1, 1], [1, 0], [1, 0]], parents_params = [],
      parents_total_params = [], parents_latencies = [], parents_memories = [], logs = []\<rparr>"

definition example_evaluated :: evolution where
  "example_evaluated =
     example_counted
       \<lparr>all_params := [0, 2, 1, 1],
        all_total_params := [1, 3, 2, 2],
        all_latencies := [0, 2, 1, 1],
        all_memories := [1, 1, 1, 1],
        calls := [Profile [1, 1], Profile [0, 0], Evaluate [0, 0], Evaluate [1, 1],
                  Evaluate [1, 0], Evaluate [1, 0]]\<rparr>"

definition example_selecting :: evolution where
  "example_selecting =
     example_evaluated
       \<lparr>pareto :=
          \<lparr>pareto_population = [[0, 0], [1, 1], [1, 0], [1, 0]],
           pareto_params = [0, 2, 1, 1],
           pareto_total_params = [1, 3, 2, 2],
           pareto_latencies = [0, 2, 1, 1],
           pareto_memories = [1, 1, 1, 1]\<rparr>\<rparr>"

definition example_next :: evolution where
  "example_next =
     example_selecting
       \<lparr>all_population := [[0, 0], [1, 1], [1, 0], [1, 0], [0, 1], [0, 1]],
        counts := [''00'' \<mapsto> 2, ''11'' \<mapsto> 2, ''10'' \<mapsto> 2, ''01'' \<mapsto> 2]\<rparr>"

definition example_next_locals :: locals where
  "example_next_locals =
     \<lparr>population = [[0, 0], [1, 1], [0, 1], [0, 1]],
      parents_params = [0, 2],
      parents_total_params = [1, 3],
      parents_latencies = [0, 2],
      parents_memories = [1, 1],
      logs =
        [\<lparr>log_population = [[0, 0], [1, 1], [1, 0], [1, 0]],
          log_params = [0, 2, 1, 1],
          log_total_params = [1, 3, 2, 2],
          log_latencies = [0, 2, 1, 1],
          log_memories = [1, 1, 1, 1],
          log_parents = [[0, 0], [1, 1]],
          log_pareto = pareto example_selecting\<rparr>]\<rparr>"

text \<open>The example's state after the evaluation of generation 1.\<close>

definition example_reevaluated :: evolution where
  "example_reevaluated =
     example_next
       \<lparr>all_params := [0, 2, 1, 1, 1, 1],
        all_total_params := [1, 3, 2, 2, 2, 2],
        all_latencies := [0, 2, 1, 1, 1, 1],
        all_memories := [1, 1, 1, 1, 1, 1],
        calls := [Profile [1, 1], Profile [0, 0], Evaluate [0, 0], Evaluate [1, 1],
                  Evaluate [1, 0], Evaluate [1, 0], Evaluate [0, 1], Evaluate [0, 1]]\<rparr>"

section \<open>Properties\<close>


subsection \<open>Loops over a list of indices\<close>

lemma for_each_Inr:
  "for_each f ks = Inr vs \<Longrightarrow>
   length vs = length ks \<and> (\<forall>j < length ks. f (ks ! j) = Inr (vs ! j))"
proof (induction ks arbitrary: vs)
  case Nil
  then show ?case by simp
next
  case (Cons k ks)
  then show ?case
    by (auto split: sum.splits simp: nth_Cons split: nat.splits)
qed

lemma for_each_all_Inr:
  "(\<And>k. k \<in> set ks \<Longrightarrow> f k = Inr (g k)) \<Longrightarrow> for_each f ks = Inr (map g ks)"
  by (induction ks) auto

lemma for_each_first_Inl:
  "(\<And>k. k \<in> set ks \<Longrightarrow> f k = Inr (g k)) \<Longrightarrow> f k' = Inl e \<Longrightarrow>
   for_each f (ks @ k' # ks') = Inl e"
  by (induction ks) (auto split: sum.splits)

lemma map_nth_upt: "n \<le> length g \<Longrightarrow> map (\<lambda>k. g ! k) [0 ..< n] = take n g"
  by (rule nth_equalityI) auto

lemma upt_split_at: "m < n \<Longrightarrow> [0 ..< n] = [0 ..< m] @ m # [Suc m ..< n]"
  using upt_add_eq_append[of 0 m "n - m"] by (simp add: upt_conv_Cons)

lemma choices_in_range:
  assumes "0 \<le> r" and "r < 1" and "xs \<noteq> []"
  shows "choices xs r = Inr (xs ! nat \<lfloor>r * real (length xs)\<rfloor>)"
proof -
  have "r * real (length xs) < real (length xs)" using assms by simp
  then have "\<lfloor>r * real (length xs)\<rfloor> < int (length xs)" by (simp add: floor_less_iff)
  moreover have "0 < length xs" using assms by simp
  ultimately have "nat \<lfloor>r * real (length xs)\<rfloor> < length xs" by linarith
  then show ?thesis by (simp add: choices_def index_def)
qed

lemma choices_member: "choices xs r = Inr v \<Longrightarrow> v \<in> set xs"
  by (auto simp: choices_def index_def split: if_splits)

subsection \<open>Crossover and mutation\<close>

text \<open>
  What \<^verbatim>\<open>_crossover([g, g])\<close> returns for a list of any length: a longer list is cut
  to \<^verbatim>\<open>gene_size\<close> values, a shorter one raises IndexError.
\<close>

lemma crossover_same_parent:
  "crossover s u [g, g] =
     (if gene_size s \<le> length g then Inr (take (gene_size s) g) else Inl IndexError)"
proof (cases "gene_size s \<le> length g")
  case True
  have "crossover s u [g, g] = Inr (map (\<lambda>k. g ! k) [0 ..< gene_size s])"
    unfolding crossover_def using True
    by (intro for_each_all_Inr) (auto simp: index_def)
  also have "map (\<lambda>k. g ! k) [0 ..< gene_size s] = take (gene_size s) g"
    using True by (rule map_nth_upt)
  finally show ?thesis using True by simp
next
  case False
  then have split: "[0 ..< gene_size s] =
      [0 ..< length g] @ length g # [Suc (length g) ..< gene_size s]"
    by (intro upt_split_at) simp
  have "crossover s u [g, g] = Inl IndexError"
    unfolding crossover_def split
    by (rule for_each_first_Inl[where g = "\<lambda>k. g ! k"]) (auto simp: index_def)
  then show ?thesis using False by simp
qed

text \<open>
  C10. Crossover of a gene with itself is the identity: for a gene \<open>g\<close> (a list
  with one value per dimension), every \<^verbatim>\<open>crossover_prob\<close> and all draws \<open>u\<close>,
  \<^verbatim>\<open>_crossover([g, g])\<close> returns \<open>g\<close>.
\<close>

theorem crossover_self_identity:
  "length g = gene_size s \<Longrightarrow> crossover s u [g, g] = Inr g"
proof -
  assume len: "length g = gene_size s"
  have "crossover s u [g, g] = Inr (map (\<lambda>k. g ! k) [0 ..< gene_size s])"
    unfolding crossover_def using len
    by (intro for_each_all_Inr) (auto simp: index_def)
  also have "map (\<lambda>k. g ! k) [0 ..< gene_size s] = g"
    using len by (simp add: map_nth_upt)
  finally show ?thesis .
qed

theorem crossover_self_identity_witness:
  "length [1, 0 :: int] = gene_size example_evolution \<and>
   crossover example_evolution low_high [[1, 0], [1, 0]] = Inr [1, 0]"
proof -
  have len: "length [1, 0 :: int] = gene_size example_evolution"
    by (simp add: gene_size_def example_evolution_def)
  show ?thesis
    using len crossover_self_identity [OF len, of low_high] by simp
qed

lemma mutation_redraws:
  assumes "mutation_prob s = 1"
    and "\<forall>k < gene_size s. 0 \<le> u k \<and> u k < 1"
    and "\<forall>k < gene_size s. 0 \<le> r k \<and> r k < 1 \<and> allowed_genes s ! k \<noteq> []"
  shows "mutation s u r gene =
     Inr (map (\<lambda>k. allowed_genes s ! k ! nat \<lfloor>r k * real (length (allowed_genes s ! k))\<rfloor>)
            [0 ..< gene_size s])"
  unfolding mutation_def using assms
  by (intro for_each_all_Inr) (simp add: choices_in_range)

lemma mutation_copies:
  assumes "mutation_prob s = 0"
    and "\<forall>k < gene_size s. 0 \<le> u k"
    and "length gene = gene_size s"
  shows "mutation s u r gene = Inr gene"
proof -
  have "mutation s u r gene = Inr (map (\<lambda>k. gene ! k) [0 ..< gene_size s])"
    unfolding mutation_def using assms
    by (intro for_each_all_Inr) (auto simp: index_def)
  then show ?thesis using assms by (simp add: map_nth_upt)
qed

text \<open>
  C8, as the code has it. With \<^verbatim>\<open>mutation_prob = 1.0\<close> every dimension of the child
  is the value \<^verbatim>\<open>random.choices\<close> draws from \<^verbatim>\<open>allowed_genes[k]\<close>, whatever the parent
  holds there, so the draw may return the parent's value; with
  \<^verbatim>\<open>mutation_prob = 0.0\<close> the child equals the parent. The draws \<open>u\<close> and \<open>r\<close> are
  numbers of \<open>[0, 1)\<close>, as \<^verbatim>\<open>np.random.uniform()\<close> and \<^verbatim>\<open>random()\<close> return them.
\<close>

theorem mutation_prob_extremes:
  "(mutation_prob s = 1 \<and> (\<forall>k < gene_size s. 0 \<le> u k \<and> u k < 1) \<and>
    (\<forall>k < gene_size s. 0 \<le> r k \<and> r k < 1 \<and> allowed_genes s ! k \<noteq> []) \<longrightarrow>
      mutation s u r gene =
        Inr (map (\<lambda>k. allowed_genes s ! k ! nat \<lfloor>r k * real (length (allowed_genes s ! k))\<rfloor>)
               [0 ..< gene_size s])) \<and>
   (mutation_prob s = 0 \<and> (\<forall>k < gene_size s. 0 \<le> u k) \<and> length gene = gene_size s \<longrightarrow>
      mutation s u r gene = Inr gene)"
proof (intro conjI impI)
  assume "mutation_prob s = 1 \<and> (\<forall>k < gene_size s. 0 \<le> u k \<and> u k < 1) \<and>
    (\<forall>k < gene_size s. 0 \<le> r k \<and> r k < 1 \<and> allowed_genes s ! k \<noteq> [])"
  then show "mutation s u r gene =
      Inr (map (\<lambda>k. allowed_genes s ! k ! nat \<lfloor>r k * real (length (allowed_genes s ! k))\<rfloor>)
             [0 ..< gene_size s])"
    by (intro mutation_redraws) simp_all
next
  assume "mutation_prob s = 0 \<and> (\<forall>k < gene_size s. 0 \<le> u k) \<and> length gene = gene_size s"
  then show "mutation s u r gene = Inr gene"
    by (intro mutation_copies) simp_all
qed

theorem mutation_prob_extremes_witness:
  "mutation (example_evolution\<lparr>mutation_prob := 1\<rparr>) low_high half_draws [0, 0] = Inr [1, 1] \<and>
   mutation (example_evolution\<lparr>mutation_prob := 0\<rparr>) low_high half_draws [0, 0] = Inr [0, 0]"
proof -
  have one: "mutation_prob (example_evolution\<lparr>mutation_prob := 1\<rparr>) = 1 \<and>
      (\<forall>k < gene_size (example_evolution\<lparr>mutation_prob := 1\<rparr>). 0 \<le> low_high k \<and> low_high k < 1) \<and>
      (\<forall>k < gene_size (example_evolution\<lparr>mutation_prob := 1\<rparr>).
          0 \<le> half_draws k \<and> half_draws k < 1 \<and>
          allowed_genes (example_evolution\<lparr>mutation_prob := 1\<rparr>) ! k \<noteq> [])"
    by (simp add: gene_size_def example_evolution_def low_high_def half_draws_def
        less_Suc_eq numeral_2_eq_2)
  have zero: "mutation_prob (example_evolution\<lparr>mutation_prob := 0\<rparr>) = 0 \<and>
      (\<forall>k < gene_size (example_evolution\<lparr>mutation_prob := 0\<rparr>). 0 \<le> low_high k) \<and>
      length [0, 0 :: int] = gene_size (example_evolution\<lparr>mutation_prob := 0\<rparr>)"
    by (simp add: gene_size_def example_evolution_def low_high_def)
  have upt2: "[0 ..< 2] = [0, Suc 0]"
    by (simp add: numeral_2_eq_2)
  show ?thesis
    using one zero
      mutation_prob_extremes [of "example_evolution\<lparr>mutation_prob := 1\<rparr>" low_high half_draws "[0, 0]"]
      mutation_prob_extremes [of "example_evolution\<lparr>mutation_prob := 0\<rparr>" low_high half_draws "[0, 0]"]
    by (simp add: gene_size_def example_evolution_def half_draws_def upt2)
qed

theorem mutation_prob_one_counterexample:
  "mutation_prob (example_evolution\<lparr>mutation_prob := 1\<rparr>) = 1 \<and>
   length (allowed_genes (example_evolution\<lparr>mutation_prob := 1\<rparr>) ! 0) = 2 \<and>
   length (allowed_genes (example_evolution\<lparr>mutation_prob := 1\<rparr>) ! 1) = 2 \<and>
   mutation (example_evolution\<lparr>mutation_prob := 1\<rparr>) half_draws zero_draws [0, 0] = Inr [0, 0]"
  by (simp add: mutation_def gene_size_def example_evolution_def half_draws_def zero_draws_def
      choices_def index_def numeral_2_eq_2)

subsection \<open>Constraint filter\<close>

lemma check_constraints_eq:
  "check_constraints c s gene =
     (if real_of_int (formula_total c gene) < param_constraint_lower s then (False, s)
      else if real_of_int (formula_total c gene) > param_constraint_upper s then (False, s)
      else (case latency_constraint_upper s of
              None \<Rightarrow> (True, s)
            | Some upper \<Rightarrow>
                (measure_inference_latency c gene \<le> upper,
                 s\<lparr>calls := calls s @ [MeasureLatency gene]\<rparr>)))"
  by (simp add: check_constraints_def Let_def not_less split: option.splits)

lemma check_constraints_frame:
  "\<exists>cs. snd (check_constraints c s gene) = s\<lparr>calls := calls s @ cs\<rparr>"
proof -
  have "snd (check_constraints c s gene) = s \<or>
      snd (check_constraints c s gene) = s\<lparr>calls := calls s @ [MeasureLatency gene]\<rparr>"
    unfolding check_constraints_eq by (cases "latency_constraint_upper s") simp_all
  then show ?thesis
  proof
    assume "snd (check_constraints c s gene) = s"
    then have "snd (check_constraints c s gene) = s\<lparr>calls := calls s @ []\<rparr>" by simp
    then show ?thesis by blast
  next
    assume "snd (check_constraints c s gene) = s\<lparr>calls := calls s @ [MeasureLatency gene]\<rparr>"
    then show ?thesis by blast
  qed
qed

lemma check_constraints_calls_irrelevant:
  "fst (check_constraints c (s\<lparr>calls := cs\<rparr>) gene) = fst (check_constraints c s gene)"
  by (simp add: check_constraints_def Let_def split: option.splits)

text \<open>
  C6. \<^verbatim>\<open>_check_constraints\<close> returns True iff the analytical parameter count lies
  in \<open>[param_constraint_lower, param_constraint_upper]\<close> and, when
  \<^verbatim>\<open>latency_constraint_upper\<close> is not None, the measured latency does not exceed
  it. The latency is measured exactly when the parameter check has passed and a
  latency bound is set, and nothing else changes. The function has no raising
  branch: its result is a verdict.
\<close>

theorem check_constraints_verdict:
  "fst (check_constraints c s gene) =
     (param_constraint_lower s \<le> real_of_int (formula_total c gene) \<and>
      real_of_int (formula_total c gene) \<le> param_constraint_upper s \<and>
      (case latency_constraint_upper s of
         None \<Rightarrow> True
       | Some upper \<Rightarrow> measure_inference_latency c gene \<le> upper)) \<and>
   snd (check_constraints c s gene) =
     (if param_constraint_lower s \<le> real_of_int (formula_total c gene) \<and>
         real_of_int (formula_total c gene) \<le> param_constraint_upper s \<and>
         latency_constraint_upper s \<noteq> None
      then s\<lparr>calls := calls s @ [MeasureLatency gene]\<rparr>
      else s)"
  unfolding check_constraints_eq
  by (cases "latency_constraint_upper s") (simp_all add: not_less not_le)

subsection \<open>Selection weights\<close>




lemma counts_range_zero:
  fixes pcs :: "nat list"
  assumes "pcs \<noteq> []" and "\<forall>n \<in> set pcs. n = 0"
  shows "(if Max (set pcs) = Min (set pcs) then Max (set pcs)
          else Max (set pcs) - Min (set pcs)) = 0"
proof -
  have "Max (set pcs) \<in> set pcs" using assms by (intro Max_in) auto
  then have "Max (set pcs) = 0" using assms by blast
  then show ?thesis by simp
qed

text \<open>
  A frontier none of whose genes the counter holds has \<^verbatim>\<open>counts_max = 0\<close>, and the
  first division raises. In \<^verbatim>\<open>search\<close> every gene of a frontier has been counted
  when the weights are computed (lemma \<open>frontier_counted_in_search\<close> below), so
  this state does not arise there.
\<close>

lemma weighted_count_uncounted:
  assumes "pareto_population (pareto s) \<noteq> []"
    and "\<forall>gene \<in> set (pareto_population (pareto s)). count_of s (gene_to_key c gene) = 0"
  shows "calculate_weighted_count c s = Inl ZeroDivisionError"
proof -
  define pcs where
    "pcs = map (\<lambda>gene. count_of s (gene_to_key c gene)) (pareto_population (pareto s))"
  define mn where "mn = Min (set pcs)"
  define rng where "rng = (if Max (set pcs) = mn then Max (set pcs) else Max (set pcs) - mn)"
  have ne: "pcs \<noteq> []" using assms by (simp add: pcs_def)
  have "\<forall>n \<in> set pcs. n = 0" using assms by (auto simp: pcs_def)
  then have rng: "rng = 0" unfolding rng_def mn_def by (rule counts_range_zero[OF ne])
  obtain n ns where pcs: "pcs = n # ns" using ne by (cases pcs) auto
  have "for_each (\<lambda>n. py_div (real n - real mn) (real rng)) pcs = Inl ZeroDivisionError"
    by (simp add: pcs rng py_div_def)
  then show ?thesis
    unfolding calculate_weighted_count_def Let_def
      pcs_def[symmetric] mn_def[symmetric] rng_def[symmetric]
    using ne by simp
qed


subsection \<open>States that differ in the recorded calls\<close>

lemma is_seen_before_calls [simp]:
  "is_seen_before c (s\<lparr>calls := cs\<rparr>) gene = is_seen_before c s gene"
  by (simp add: is_seen_before_def)

lemma in_space_calls [simp]: "in_space (s\<lparr>calls := cs\<rparr>) gene = in_space s gene"
  by (simp add: in_space_def)

lemma gene_size_calls [simp]: "gene_size (s\<lparr>calls := cs\<rparr>) = gene_size s"
  by (simp add: gene_size_def)

lemma mutation_calls [simp]: "mutation (s\<lparr>calls := cs\<rparr>) u r gene = mutation s u r gene"
  by (simp add: mutation_def cong: if_cong)

lemma crossover_calls [simp]: "crossover (s\<lparr>calls := cs\<rparr>) u genes = crossover s u genes"
  by (simp add: crossover_def cong: if_cong)

subsection \<open>Closure of the search space\<close>

lemma for_each_upt_Inr:
  "for_each f [0 ..< n] = Inr vs \<Longrightarrow> length vs = n \<and> (\<forall>j < n. f j = Inr (vs ! j))"
  using for_each_Inr[of f "[0 ..< n]" vs] by auto

lemma in_space_nth:
  "in_space s gene \<longleftrightarrow>
     length gene = gene_size s \<and> (\<forall>k < gene_size s. gene ! k \<in> set (allowed_genes s ! k))"
  by (auto simp: in_space_def gene_size_def list_all2_conv_all_nth)

lemma sampled_gene_in_space:
  assumes "for_each (\<lambda>k. choices (allowed_genes s ! k) (r k)) [0 ..< gene_size s] = Inr gene"
  shows "in_space s gene"
proof -
  from for_each_upt_Inr[OF assms]
  have len: "length gene = gene_size s"
    and each: "\<forall>j < gene_size s. choices (allowed_genes s ! j) (r j) = Inr (gene ! j)"
    by simp_all
  show ?thesis
    unfolding in_space_nth using len each by (auto dest: choices_member)
qed

lemma mutation_in_space:
  assumes "in_space s parent" and "mutation s u r parent = Inr child"
  shows "in_space s child"
proof -
  from for_each_upt_Inr[OF assms(2)[unfolded mutation_def]]
  have len: "length child = gene_size s"
    and each: "\<forall>j < gene_size s.
        (if u j < mutation_prob s then choices (allowed_genes s ! j) (r j)
         else index parent j) = Inr (child ! j)"
    by simp_all
  have "child ! j \<in> set (allowed_genes s ! j)" if j: "j < gene_size s" for j
  proof (cases "u j < mutation_prob s")
    case True
    then have "choices (allowed_genes s ! j) (r j) = Inr (child ! j)"
      using each[rule_format, OF j] by simp
    then show ?thesis by (rule choices_member)
  next
    case False
    then have "index parent j = Inr (child ! j)" using each[rule_format, OF j] by simp
    then have "child ! j = parent ! j" by (auto simp: index_def split: if_splits)
    then show ?thesis using assms(1) j by (simp add: in_space_nth)
  qed
  then show ?thesis unfolding in_space_nth using len by simp
qed

lemma crossover_in_space:
  assumes "\<forall>g \<in> set genes. in_space s g" and "crossover s u genes = Inr child"
  shows "in_space s child"
proof -
  from for_each_upt_Inr[OF assms(2)[unfolded crossover_def]]
  have len: "length child = gene_size s"
    and each: "\<forall>j < gene_size s.
        (if u j < crossover_prob s
         then (case index genes 0 of Inl e \<Rightarrow> Inl e | Inr g \<Rightarrow> index g j)
         else (case index genes 1 of Inl e \<Rightarrow> Inl e | Inr g \<Rightarrow> index g j)) = Inr (child ! j)"
    by simp_all
  have "child ! j \<in> set (allowed_genes s ! j)" if j: "j < gene_size s" for j
  proof -
    obtain m where m: "(case index genes m of Inl e \<Rightarrow> Inl e | Inr g \<Rightarrow> index g j) = Inr (child ! j)"
      using each[rule_format, OF j] by (cases "u j < crossover_prob s") auto
    then obtain g where g: "index genes m = Inr g" "index g j = Inr (child ! j)"
      by (auto split: sum.splits)
    from g(1) have "g \<in> set genes" by (auto simp: index_def split: if_splits)
    then have "in_space s g" using assms(1) by blast
    moreover from g(2) have "child ! j = g ! j" by (auto simp: index_def split: if_splits)
    ultimately show ?thesis using j by (simp add: in_space_nth)
  qed
  then show ?thesis unfolding in_space_nth using len by simp
qed

subsection \<open>The three sampling loops\<close>

text \<open>
  One iteration of each loop, as equations: the loop stops when the quota is
  reached, passes on an exception, and is \<open>None\<close> when the draws are used up.
\<close>

lemma sample_loop_step:
  assumes "i < n"
    and "for_each (\<lambda>k. choices (allowed_genes s ! k) (r k)) [0 ..< gene_size s] = Inr gene"
    and "check_constraints c s gene = (v, s1)"
  shows "sample_loop c n (r # rs) s i pop =
     (if v then sample_loop c n rs s1 (i + 1) (pop @ [gene])
      else sample_loop c n rs s1 i pop)"
  using assms by simp

lemma sample_loop_stop:
  "\<not> i < n \<Longrightarrow> sample_loop c n rs s i pop = Some (Inr (pop, s))"
  by (cases rs) simp_all

lemma sample_loop_error:
  assumes "i < n"
    and "for_each (\<lambda>k. choices (allowed_genes s ! k) (r k)) [0 ..< gene_size s] = Inl e"
  shows "sample_loop c n (r # rs) s i pop = Some (Inl e)"
  using assms by simp

lemma sample_loop_out_of_draws:
  "i < n \<Longrightarrow> sample_loop c n [] s i pop = None"
  by simp

declare sample_loop.simps [simp del]

text \<open>
  What the sampling loop returns: \<open>n\<close> genes in all, the new ones valid and in
  the search space; of the state only the recorded calls change.
\<close>

lemma sample_loop_result:
  "sample_loop c n rs s i pop = Some (Inr (pop', s')) \<Longrightarrow>
   i \<le> n \<Longrightarrow> length pop = i \<Longrightarrow>
   length pop' = n \<and>
   (\<exists>new. pop' = pop @ new \<and>
      (\<forall>g \<in> set new. fst (check_constraints c s g) \<and> in_space s g)) \<and>
   (\<exists>cs. s' = s\<lparr>calls := calls s @ cs\<rparr>)"
proof (induction rs arbitrary: s i pop)
  case Nil
  have stop: "\<not> i < n"
    using Nil.prems(1) by (cases "i < n") (simp_all add: sample_loop_out_of_draws)
  then have "pop' = pop" "s' = s" using Nil.prems(1) by (simp_all add: sample_loop_stop)
  moreover have "s = s\<lparr>calls := calls s @ []\<rparr>" by simp
  ultimately show ?case using Nil.prems(2,3) stop by (metis append_Nil2 empty_iff le_neq_implies_less list.set(1))
next
  case (Cons r rs)
  show ?case
  proof (cases "i < n")
    case False
    then have "pop' = pop" "s' = s" using Cons.prems(1) by (simp_all add: sample_loop_stop)
    moreover have "s = s\<lparr>calls := calls s @ []\<rparr>" by simp
    ultimately show ?thesis using Cons.prems(2,3) False
      by (metis append_Nil2 empty_iff le_neq_implies_less list.set(1))
  next
    case True
    obtain gene where gene:
      "for_each (\<lambda>k. choices (allowed_genes s ! k) (r k)) [0 ..< gene_size s] = Inr gene"
    proof (cases "for_each (\<lambda>k. choices (allowed_genes s ! k) (r k)) [0 ..< gene_size s]")
      case (Inl e)
      then show ?thesis using Cons.prems(1) True by (simp add: sample_loop_error)
    next
      case (Inr gene)
      then show ?thesis using that by blast
    qed
    have space: "in_space s gene" using gene by (rule sampled_gene_in_space)
    obtain cs where cs: "snd (check_constraints c s gene) = s\<lparr>calls := calls s @ cs\<rparr>"
      using check_constraints_frame by blast
    define s1 where "s1 = s\<lparr>calls := calls s @ cs\<rparr>"
    obtain v where chk: "check_constraints c s gene = (v, s1)"
      using cs by (cases "check_constraints c s gene") (simp add: s1_def)
    then have v: "v = fst (check_constraints c s gene)" by simp
    have same: "fst (check_constraints c s1 g) = fst (check_constraints c s g)" for g
      by (simp add: s1_def check_constraints_calls_irrelevant)
    note step = sample_loop_step[OF True gene chk, of rs pop]
    show ?thesis
    proof (cases v)
      case valid: True
      have rec: "sample_loop c n rs s1 (i + 1) (pop @ [gene]) = Some (Inr (pop', s'))"
        using Cons.prems(1) step valid by simp
      have "length pop' = n \<and>
          (\<exists>new. pop' = (pop @ [gene]) @ new \<and>
             (\<forall>g \<in> set new. fst (check_constraints c s1 g) \<and> in_space s1 g)) \<and>
          (\<exists>cs. s' = s1\<lparr>calls := calls s1 @ cs\<rparr>)"
        using True Cons.prems(3) by (intro Cons.IH[OF rec]) simp_all
      then obtain new cs' where new: "length pop' = n"
        "pop' = (pop @ [gene]) @ new"
        "\<forall>g \<in> set new. fst (check_constraints c s1 g) \<and> in_space s1 g"
        "s' = s1\<lparr>calls := calls s1 @ cs'\<rparr>"
        by blast
      have "pop' = pop @ (gene # new)" using new(2) by simp
      moreover have "\<forall>g \<in> set (gene # new). fst (check_constraints c s g) \<and> in_space s g"
        using new(3) valid v space same by (simp add: s1_def)
      moreover have "s' = s\<lparr>calls := calls s @ (cs @ cs')\<rparr>"
        using new(4) by (simp add: s1_def)
      ultimately show ?thesis using new(1) by blast
    next
      case invalid: False
      have rec: "sample_loop c n rs s1 i pop = Some (Inr (pop', s'))"
        using Cons.prems(1) step invalid by simp
      have "length pop' = n \<and>
          (\<exists>new. pop' = pop @ new \<and>
             (\<forall>g \<in> set new. fst (check_constraints c s1 g) \<and> in_space s1 g)) \<and>
          (\<exists>cs. s' = s1\<lparr>calls := calls s1 @ cs\<rparr>)"
        using Cons.prems(2,3) by (intro Cons.IH[OF rec]) simp_all
      then obtain new cs' where new: "length pop' = n"
        "pop' = pop @ new"
        "\<forall>g \<in> set new. fst (check_constraints c s1 g) \<and> in_space s1 g"
        "s' = s1\<lparr>calls := calls s1 @ cs'\<rparr>"
        by blast
      have "\<forall>g \<in> set new. fst (check_constraints c s g) \<and> in_space s g"
        using new(3) same by (simp add: s1_def)
      moreover have "s' = s\<lparr>calls := calls s @ (cs @ cs')\<rparr>"
        using new(4) by (simp add: s1_def)
      ultimately show ?thesis using new(1,2) by blast
    qed
  qed
qed

lemma mutation_loop_step:
  assumes "k < mutation_size s"
    and "choices parents (fst d) = Inr parent"
    and "mutation s (fst (snd d)) (snd (snd d)) parent = Inr gene"
    and "check_constraints c s gene = (v, s1)"
  shows "mutation_loop c parents (d # ds) s k acc =
     (if v \<and> \<not> is_seen_before c s1 gene
      then mutation_loop c parents ds s1 (k + 1) (acc @ [gene])
      else mutation_loop c parents ds s1 k acc)"
  using assms by simp

lemma mutation_loop_stop:
  "\<not> k < mutation_size s \<Longrightarrow> mutation_loop c parents ds s k acc = Some (Inr (acc, s))"
  by (cases ds) simp_all

lemma mutation_loop_no_parent:
  assumes "k < mutation_size s" and "choices parents (fst d) = Inl e"
  shows "mutation_loop c parents (d # ds) s k acc = Some (Inl e)"
  using assms by simp

lemma mutation_loop_error:
  assumes "k < mutation_size s"
    and "choices parents (fst d) = Inr parent"
    and "mutation s (fst (snd d)) (snd (snd d)) parent = Inl e"
  shows "mutation_loop c parents (d # ds) s k acc = Some (Inl e)"
  using assms by simp

lemma mutation_loop_out_of_draws:
  "k < mutation_size s \<Longrightarrow> mutation_loop c parents [] s k acc = None"
  by simp

declare mutation_loop.simps [simp del]

text \<open>
  What the mutation loop returns: \<^verbatim>\<open>mutation_size\<close> children in all; each new one
  passed \<^verbatim>\<open>_check_constraints\<close>, its key was not in the counter, and it lies in
  the search space when the parents do; of the state only the recorded calls
  change, so the counter is the same for every child of the loop.
\<close>

lemma mutation_loop_result:
  "mutation_loop c parents ds s k acc = Some (Inr (mutated, s')) \<Longrightarrow>
   k \<le> mutation_size s \<Longrightarrow> length acc = k \<Longrightarrow>
   length mutated = mutation_size s \<and>
   (\<exists>new. mutated = acc @ new \<and>
      (\<forall>g \<in> set new. fst (check_constraints c s g) \<and> \<not> is_seen_before c s g \<and>
         ((\<forall>p \<in> set parents. in_space s p) \<longrightarrow> in_space s g))) \<and>
   (\<exists>cs. s' = s\<lparr>calls := calls s @ cs\<rparr>)"
proof (induction ds arbitrary: s k acc)
  case Nil
  have stop: "\<not> k < mutation_size s"
    using Nil.prems(1) by (cases "k < mutation_size s") (simp_all add: mutation_loop_out_of_draws)
  then have "mutated = acc" "s' = s" using Nil.prems(1) by (simp_all add: mutation_loop_stop)
  moreover have "s = s\<lparr>calls := calls s @ []\<rparr>" by simp
  ultimately show ?case using Nil.prems(2,3) stop
    by (metis append_Nil2 empty_iff le_neq_implies_less list.set(1))
next
  case (Cons d ds)
  show ?case
  proof (cases "k < mutation_size s")
    case False
    then have "mutated = acc" "s' = s" using Cons.prems(1) by (simp_all add: mutation_loop_stop)
    moreover have "s = s\<lparr>calls := calls s @ []\<rparr>" by simp
    ultimately show ?thesis using Cons.prems(2,3) False
      by (metis append_Nil2 empty_iff le_neq_implies_less list.set(1))
  next
    case True
    obtain parent where parent: "choices parents (fst d) = Inr parent"
    proof (cases "choices parents (fst d)")
      case (Inl e)
      then show ?thesis using Cons.prems(1) True by (simp add: mutation_loop_no_parent)
    next
      case (Inr parent)
      then show ?thesis using that by blast
    qed
    obtain gene where gene: "mutation s (fst (snd d)) (snd (snd d)) parent = Inr gene"
    proof (cases "mutation s (fst (snd d)) (snd (snd d)) parent")
      case (Inl e)
      then show ?thesis using Cons.prems(1) True parent by (simp add: mutation_loop_error)
    next
      case (Inr gene)
      then show ?thesis using that by blast
    qed
    have space: "(\<forall>p \<in> set parents. in_space s p) \<longrightarrow> in_space s gene"
      using parent gene by (auto dest: choices_member intro: mutation_in_space)
    obtain cs where cs: "snd (check_constraints c s gene) = s\<lparr>calls := calls s @ cs\<rparr>"
      using check_constraints_frame by blast
    define s1 where "s1 = s\<lparr>calls := calls s @ cs\<rparr>"
    obtain v where chk: "check_constraints c s gene = (v, s1)"
      using cs by (cases "check_constraints c s gene") (simp add: s1_def)
    then have v: "v = fst (check_constraints c s gene)" by simp
    have same: "fst (check_constraints c s1 g) = fst (check_constraints c s g)" for g
      by (simp add: s1_def check_constraints_calls_irrelevant)
    have size1: "mutation_size s1 = mutation_size s" by (simp add: s1_def)
    note step = mutation_loop_step[OF True parent gene chk, of ds acc]
    show ?thesis
    proof (cases "v \<and> \<not> is_seen_before c s1 gene")
      case accepted: True
      have rec: "mutation_loop c parents ds s1 (k + 1) (acc @ [gene]) = Some (Inr (mutated, s'))"
        using Cons.prems(1) step accepted by simp
      have "length mutated = mutation_size s1 \<and>
          (\<exists>new. mutated = (acc @ [gene]) @ new \<and>
             (\<forall>g \<in> set new. fst (check_constraints c s1 g) \<and> \<not> is_seen_before c s1 g \<and>
                ((\<forall>p \<in> set parents. in_space s1 p) \<longrightarrow> in_space s1 g))) \<and>
          (\<exists>cs. s' = s1\<lparr>calls := calls s1 @ cs\<rparr>)"
        using True Cons.prems(3) size1 by (intro Cons.IH[OF rec]) simp_all
      then obtain new cs' where new: "length mutated = mutation_size s1"
        "mutated = (acc @ [gene]) @ new"
        "\<forall>g \<in> set new. fst (check_constraints c s1 g) \<and> \<not> is_seen_before c s1 g \<and>
                ((\<forall>p \<in> set parents. in_space s1 p) \<longrightarrow> in_space s1 g)"
        "s' = s1\<lparr>calls := calls s1 @ cs'\<rparr>"
        by blast
      have "mutated = acc @ (gene # new)" using new(2) by simp
      moreover have "\<forall>g \<in> set (gene # new).
          fst (check_constraints c s g) \<and> \<not> is_seen_before c s g \<and>
          ((\<forall>p \<in> set parents. in_space s p) \<longrightarrow> in_space s g)"
        using new(3) accepted v space same by (simp add: s1_def)
      moreover have "s' = s\<lparr>calls := calls s @ (cs @ cs')\<rparr>"
        using new(4) by (simp add: s1_def)
      moreover have "length mutated = mutation_size s" using new(1) size1 by simp
      ultimately show ?thesis by blast
    next
      case rejected: False
      have rec: "mutation_loop c parents ds s1 k acc = Some (Inr (mutated, s'))"
        using Cons.prems(1) step rejected by simp
      have "length mutated = mutation_size s1 \<and>
          (\<exists>new. mutated = acc @ new \<and>
             (\<forall>g \<in> set new. fst (check_constraints c s1 g) \<and> \<not> is_seen_before c s1 g \<and>
                ((\<forall>p \<in> set parents. in_space s1 p) \<longrightarrow> in_space s1 g))) \<and>
          (\<exists>cs. s' = s1\<lparr>calls := calls s1 @ cs\<rparr>)"
        using Cons.prems(2,3) size1 by (intro Cons.IH[OF rec]) simp_all
      then obtain new cs' where new: "length mutated = mutation_size s1"
        "mutated = acc @ new"
        "\<forall>g \<in> set new. fst (check_constraints c s1 g) \<and> \<not> is_seen_before c s1 g \<and>
                ((\<forall>p \<in> set parents. in_space s1 p) \<longrightarrow> in_space s1 g)"
        "s' = s1\<lparr>calls := calls s1 @ cs'\<rparr>"
        by blast
      have "\<forall>g \<in> set new. fst (check_constraints c s g) \<and> \<not> is_seen_before c s g \<and>
          ((\<forall>p \<in> set parents. in_space s p) \<longrightarrow> in_space s g)"
        using new(3) same by (simp add: s1_def)
      moreover have "s' = s\<lparr>calls := calls s @ (cs @ cs')\<rparr>"
        using new(4) by (simp add: s1_def)
      moreover have "length mutated = mutation_size s" using new(1) size1 by simp
      ultimately show ?thesis using new(2) by blast
    qed
  qed
qed

lemma sample2_members: "sample2 xs ij = Inr genes \<Longrightarrow> set genes \<subseteq> set xs"
  by (auto simp: sample2_def index_def split: if_splits)

lemma crossover_loop_step:
  assumes "k < crossover_size s"
    and "sample2 parents (fst d) = Inr genes"
    and "crossover s (snd d) genes = Inr gene"
    and "check_constraints c s gene = (v, s1)"
  shows "crossover_loop c parents (d # ds) s k acc =
     (if v \<and> \<not> is_seen_before c s1 gene
      then crossover_loop c parents ds s1 (k + 1) (acc @ [gene])
      else crossover_loop c parents ds s1 k acc)"
  using assms by simp

lemma crossover_loop_stop:
  "\<not> k < crossover_size s \<Longrightarrow> crossover_loop c parents ds s k acc = Some (Inr (acc, s))"
  by (cases ds) simp_all

lemma crossover_loop_no_parents:
  assumes "k < crossover_size s" and "sample2 parents (fst d) = Inl e"
  shows "crossover_loop c parents (d # ds) s k acc = Some (Inl e)"
  using assms by simp

lemma crossover_loop_error:
  assumes "k < crossover_size s"
    and "sample2 parents (fst d) = Inr genes"
    and "crossover s (snd d) genes = Inl e"
  shows "crossover_loop c parents (d # ds) s k acc = Some (Inl e)"
  using assms by simp

lemma crossover_loop_out_of_draws:
  "k < crossover_size s \<Longrightarrow> crossover_loop c parents [] s k acc = None"
  by simp

declare crossover_loop.simps [simp del]

text \<open>
  The same for the crossover loop and \<^verbatim>\<open>crossover_size\<close>.
\<close>

lemma crossover_loop_result:
  "crossover_loop c parents ds s k acc = Some (Inr (crossed, s')) \<Longrightarrow>
   k \<le> crossover_size s \<Longrightarrow> length acc = k \<Longrightarrow>
   length crossed = crossover_size s \<and>
   (\<exists>new. crossed = acc @ new \<and>
      (\<forall>g \<in> set new. fst (check_constraints c s g) \<and> \<not> is_seen_before c s g \<and>
         ((\<forall>p \<in> set parents. in_space s p) \<longrightarrow> in_space s g))) \<and>
   (\<exists>cs. s' = s\<lparr>calls := calls s @ cs\<rparr>)"
proof (induction ds arbitrary: s k acc)
  case Nil
  have stop: "\<not> k < crossover_size s"
    using Nil.prems(1) by (cases "k < crossover_size s") (simp_all add: crossover_loop_out_of_draws)
  then have "crossed = acc" "s' = s" using Nil.prems(1) by (simp_all add: crossover_loop_stop)
  moreover have "s = s\<lparr>calls := calls s @ []\<rparr>" by simp
  ultimately show ?case using Nil.prems(2,3) stop
    by (metis append_Nil2 empty_iff le_neq_implies_less list.set(1))
next
  case (Cons d ds)
  show ?case
  proof (cases "k < crossover_size s")
    case False
    then have "crossed = acc" "s' = s" using Cons.prems(1) by (simp_all add: crossover_loop_stop)
    moreover have "s = s\<lparr>calls := calls s @ []\<rparr>" by simp
    ultimately show ?thesis using Cons.prems(2,3) False
      by (metis append_Nil2 empty_iff le_neq_implies_less list.set(1))
  next
    case True
    obtain genes where genes: "sample2 parents (fst d) = Inr genes"
    proof (cases "sample2 parents (fst d)")
      case (Inl e)
      then show ?thesis using Cons.prems(1) True by (simp add: crossover_loop_no_parents)
    next
      case (Inr genes)
      then show ?thesis using that by blast
    qed
    obtain gene where gene: "crossover s (snd d) genes = Inr gene"
    proof (cases "crossover s (snd d) genes")
      case (Inl e)
      then show ?thesis using Cons.prems(1) True genes by (simp add: crossover_loop_error)
    next
      case (Inr gene)
      then show ?thesis using that by blast
    qed
    have space: "(\<forall>p \<in> set parents. in_space s p) \<longrightarrow> in_space s gene"
      using sample2_members[OF genes] gene by (auto intro: crossover_in_space)
    obtain cs where cs: "snd (check_constraints c s gene) = s\<lparr>calls := calls s @ cs\<rparr>"
      using check_constraints_frame by blast
    define s1 where "s1 = s\<lparr>calls := calls s @ cs\<rparr>"
    obtain v where chk: "check_constraints c s gene = (v, s1)"
      using cs by (cases "check_constraints c s gene") (simp add: s1_def)
    then have v: "v = fst (check_constraints c s gene)" by simp
    have same: "fst (check_constraints c s1 g) = fst (check_constraints c s g)" for g
      by (simp add: s1_def check_constraints_calls_irrelevant)
    have size1: "crossover_size s1 = crossover_size s" by (simp add: s1_def)
    note step = crossover_loop_step[OF True genes gene chk, of ds acc]
    show ?thesis
    proof (cases "v \<and> \<not> is_seen_before c s1 gene")
      case accepted: True
      have rec: "crossover_loop c parents ds s1 (k + 1) (acc @ [gene]) = Some (Inr (crossed, s'))"
        using Cons.prems(1) step accepted by simp
      have "length crossed = crossover_size s1 \<and>
          (\<exists>new. crossed = (acc @ [gene]) @ new \<and>
             (\<forall>g \<in> set new. fst (check_constraints c s1 g) \<and> \<not> is_seen_before c s1 g \<and>
                ((\<forall>p \<in> set parents. in_space s1 p) \<longrightarrow> in_space s1 g))) \<and>
          (\<exists>cs. s' = s1\<lparr>calls := calls s1 @ cs\<rparr>)"
        using True Cons.prems(3) size1 by (intro Cons.IH[OF rec]) simp_all
      then obtain new cs' where new: "length crossed = crossover_size s1"
        "crossed = (acc @ [gene]) @ new"
        "\<forall>g \<in> set new. fst (check_constraints c s1 g) \<and> \<not> is_seen_before c s1 g \<and>
                ((\<forall>p \<in> set parents. in_space s1 p) \<longrightarrow> in_space s1 g)"
        "s' = s1\<lparr>calls := calls s1 @ cs'\<rparr>"
        by blast
      have "crossed = acc @ (gene # new)" using new(2) by simp
      moreover have "\<forall>g \<in> set (gene # new).
          fst (check_constraints c s g) \<and> \<not> is_seen_before c s g \<and>
          ((\<forall>p \<in> set parents. in_space s p) \<longrightarrow> in_space s g)"
        using new(3) accepted v space same by (simp add: s1_def)
      moreover have "s' = s\<lparr>calls := calls s @ (cs @ cs')\<rparr>"
        using new(4) by (simp add: s1_def)
      moreover have "length crossed = crossover_size s" using new(1) size1 by simp
      ultimately show ?thesis by blast
    next
      case rejected: False
      have rec: "crossover_loop c parents ds s1 k acc = Some (Inr (crossed, s'))"
        using Cons.prems(1) step rejected by simp
      have "length crossed = crossover_size s1 \<and>
          (\<exists>new. crossed = acc @ new \<and>
             (\<forall>g \<in> set new. fst (check_constraints c s1 g) \<and> \<not> is_seen_before c s1 g \<and>
                ((\<forall>p \<in> set parents. in_space s1 p) \<longrightarrow> in_space s1 g))) \<and>
          (\<exists>cs. s' = s1\<lparr>calls := calls s1 @ cs\<rparr>)"
        using Cons.prems(2,3) size1 by (intro Cons.IH[OF rec]) simp_all
      then obtain new cs' where new: "length crossed = crossover_size s1"
        "crossed = acc @ new"
        "\<forall>g \<in> set new. fst (check_constraints c s1 g) \<and> \<not> is_seen_before c s1 g \<and>
                ((\<forall>p \<in> set parents. in_space s1 p) \<longrightarrow> in_space s1 g)"
        "s' = s1\<lparr>calls := calls s1 @ cs'\<rparr>"
        by blast
      have "\<forall>g \<in> set new. fst (check_constraints c s g) \<and> \<not> is_seen_before c s g \<and>
          ((\<forall>p \<in> set parents. in_space s p) \<longrightarrow> in_space s g)"
        using new(3) same by (simp add: s1_def)
      moreover have "s' = s\<lparr>calls := calls s @ (cs @ cs')\<rparr>"
        using new(4) by (simp add: s1_def)
      moreover have "length crossed = crossover_size s" using new(1) size1 by simp
      ultimately show ?thesis using new(2) by blast
    qed
  qed
qed

text \<open>
  None of the three loops evaluates a gene: they only call \<^verbatim>\<open>_check_constraints\<close>,
  which records latency measurements.
\<close>

lemma check_constraints_evaluated:
  "check_constraints c s gene = (v, s') \<Longrightarrow> evaluated s' = evaluated s"
  unfolding check_constraints_eq
  by (cases "latency_constraint_upper s") (auto simp: evaluated_def split: if_splits)

lemma sample_loop_evaluated:
  "sample_loop c n rs s i pop = Some (Inr (pop', s')) \<Longrightarrow> evaluated s' = evaluated s"
proof (induction rs arbitrary: s i pop)
  case Nil
  then show ?case by (auto simp: sample_loop.simps split: if_splits)
next
  case (Cons r rs)
  show ?case
  proof (cases "i < n")
    case False
    then show ?thesis using Cons.prems by (simp add: sample_loop_stop)
  next
    case True
    then obtain gene v s1 where
      chk: "check_constraints c s gene = (v, s1)"
      and rec: "sample_loop c n rs s1 (if v then i + 1 else i) (if v then pop @ [gene] else pop) =
        Some (Inr (pop', s'))"
      using Cons.prems
      by (auto simp: sample_loop.simps split: sum.splits prod.splits if_splits)
    from Cons.IH[OF rec] check_constraints_evaluated[OF chk] show ?thesis by simp
  qed
qed

lemma mutation_loop_evaluated:
  "mutation_loop c parents ds s k acc = Some (Inr (mutated, s')) \<Longrightarrow> evaluated s' = evaluated s"
proof (induction ds arbitrary: s k acc)
  case Nil
  then show ?case by (auto simp: mutation_loop.simps split: if_splits)
next
  case (Cons d ds)
  show ?case
  proof (cases "k < mutation_size s")
    case False
    then show ?thesis using Cons.prems by (simp add: mutation_loop_stop)
  next
    case True
    then obtain gene v s1 k' acc' where
      chk: "check_constraints c s gene = (v, s1)"
      and rec: "mutation_loop c parents ds s1 k' acc' = Some (Inr (mutated, s'))"
      using Cons.prems
      by (auto simp: mutation_loop.simps split: sum.splits prod.splits if_splits)
    from Cons.IH[OF rec] check_constraints_evaluated[OF chk] show ?thesis by simp
  qed
qed

lemma crossover_loop_evaluated:
  "crossover_loop c parents ds s k acc = Some (Inr (crossed, s')) \<Longrightarrow> evaluated s' = evaluated s"
proof (induction ds arbitrary: s k acc)
  case Nil
  then show ?case by (auto simp: crossover_loop.simps split: if_splits)
next
  case (Cons d ds)
  show ?case
  proof (cases "k < crossover_size s")
    case False
    then show ?thesis using Cons.prems by (simp add: crossover_loop_stop)
  next
    case True
    then obtain gene v s1 k' acc' where
      chk: "check_constraints c s gene = (v, s1)"
      and rec: "crossover_loop c parents ds s1 k' acc' = Some (Inr (crossed, s'))"
      using Cons.prems
      by (auto simp: crossover_loop.simps split: sum.splits prod.splits if_splits)
    from Cons.IH[OF rec] check_constraints_evaluated[OF chk] show ?thesis by simp
  qed
qed

subsection \<open>The stages of a generation\<close>

lemma for_each_index:
  "for_each (index xs) js =
     (if \<forall>j \<in> set js. j < length xs then Inr (map (\<lambda>j. xs ! j) js) else Inl IndexError)"
  by (induction js) (auto simp: index_def)

text \<open>
  The evaluation stage in closed form: the assertions compare the number of
  parents' values plus the number of members measured with \<^verbatim>\<open>population_size\<close>.
\<close>

lemma evaluate_population_eq:
  "evaluate_population c i s l =
     (let unseen = drop (if i = 0 then 0 else parent_size s) (population l)
      in if length (parents_params l) + length unseen \<noteq> population_size s \<or>
            length (parents_total_params l) + length unseen \<noteq> population_size s \<or>
            length (parents_latencies l) + length unseen \<noteq> population_size s \<or>
            length (parents_memories l) + length unseen \<noteq> population_size s
         then Inl AssertionError
         else Inr ((parents_params l @ map (measure_decoder_params c) unseen,
                    parents_total_params l @ map (measure_total_params c) unseen,
                    parents_latencies l @ map (measure_inference_latency c) unseen,
                    parents_memories l @ map (measure_peak_memory c) unseen),
                   s\<lparr>all_params := all_params s @ map (measure_decoder_params c) unseen,
                     all_total_params := all_total_params s @ map (measure_total_params c) unseen,
                     all_latencies := all_latencies s @ map (measure_inference_latency c) unseen,
                     all_memories := all_memories s @ map (measure_peak_memory c) unseen,
                     calls := calls s @ map Evaluate unseen\<rparr>))"
  by (simp add: evaluate_population_def calculate_constraints_def Let_def)

text \<open>
  \<^verbatim>\<open>_update_pareto_front\<close> on a nonempty history whose five lists are equally
  long: no assertion fails.
\<close>

lemma update_pareto_front_aligned:
  assumes "all_params s \<noteq> []"
    and "length (all_population s) = length (all_params s)"
    and "length (all_total_params s) = length (all_params s)"
    and "length (all_latencies s) = length (all_params s)"
    and "length (all_memories s) = length (all_params s)"
  shows "update_pareto_front c s is_decreasing =
     (let p_inds =
            find_pareto_points c
              (zip (map (\<lambda>p. real_of_int (Max (set (all_params s)) - p)) (all_params s))
                 (zip (all_latencies s) (all_memories s)))
              is_decreasing
      in if \<forall>j \<in> set p_inds. j < length (all_population s)
         then Inr (s\<lparr>pareto :=
                      \<lparr>pareto_population = map (\<lambda>j. all_population s ! j) p_inds,
                       pareto_params = map (\<lambda>j. all_params s ! j) p_inds,
                       pareto_total_params = map (\<lambda>j. all_total_params s ! j) p_inds,
                       pareto_latencies = map (\<lambda>j. all_latencies s ! j) p_inds,
                       pareto_memories = map (\<lambda>j. all_memories s ! j) p_inds\<rparr>\<rparr>)
         else Inl IndexError)"
  using assms
  by (simp add: update_pareto_front_def history_points_def Let_def for_each_index)

lemma select_parents_Inr:
  assumes "select_parents c s sel = Inr (parents, pp, ptp, pl, pm)"
  shows "(\<exists>weights. calculate_weighted_count c s = Inr weights) \<and>
     (\<forall>j < parent_size s. sel j < length (pareto_population (pareto s))) \<and>
     parents = map (\<lambda>j. pareto_population (pareto s) ! sel j) [0 ..< parent_size s] \<and>
     pp = map (\<lambda>j. pareto_params (pareto s) ! sel j) [0 ..< parent_size s] \<and>
     ptp = map (\<lambda>j. pareto_total_params (pareto s) ! sel j) [0 ..< parent_size s] \<and>
     pl = map (\<lambda>j. pareto_latencies (pareto s) ! sel j) [0 ..< parent_size s] \<and>
     pm = map (\<lambda>j. pareto_memories (pareto s) ! sel j) [0 ..< parent_size s]"
  using assms
  by (simp add: select_parents_def Let_def for_each_index comp_def
      split: sum.splits if_splits)

text \<open>
  \<^verbatim>\<open>_update_population_count\<close> changes the counter only, never lowers a count,
  and leaves every member of the population with a positive count.
\<close>

lemma update_population_count_frame:
  "update_population_count c s pop = s\<lparr>counts := counts (update_population_count c s pop)\<rparr>"
proof (induction pop arbitrary: s)
  case Nil
  then show ?case by simp
next
  case (Cons g pop)
  have "update_population_count c (update_gene_count c s g) pop =
      (update_gene_count c s g)\<lparr>counts := counts (update_population_count c (update_gene_count c s g) pop)\<rparr>"
    by (rule Cons.IH)
  then show ?case by (simp add: update_gene_count_def Let_def)
qed

lemma count_of_update_gene_count:
  "count_of (update_gene_count c s g) k =
     (if k = gene_to_key c g then count_of s k + 1 else count_of s k)"
  by (simp add: update_gene_count_def count_of_def Let_def)

lemma count_of_update_population_count_mono:
  "count_of s k \<le> count_of (update_population_count c s pop) k"
proof (induction pop arbitrary: s)
  case Nil
  then show ?case by simp
next
  case (Cons g pop)
  have "count_of s k \<le> count_of (update_gene_count c s g) k"
    by (simp add: count_of_update_gene_count)
  also have "\<dots> \<le> count_of (update_population_count c (update_gene_count c s g) pop) k"
    by (rule Cons.IH)
  finally show ?case by simp
qed

lemma count_of_update_population_count_member:
  "g \<in> set pop \<Longrightarrow> 0 < count_of (update_population_count c s pop) (gene_to_key c g)"
proof (induction pop arbitrary: s)
  case Nil
  then show ?case by simp
next
  case (Cons g' pop)
  show ?case
  proof (cases "g = g'")
    case True
    have "0 < count_of (update_gene_count c s g') (gene_to_key c g)"
      using True by (simp add: count_of_update_gene_count)
    also have "\<dots> \<le> count_of (update_population_count c (update_gene_count c s g') pop) (gene_to_key c g)"
      by (rule count_of_update_population_count_mono)
    finally show ?thesis by simp
  next
    case False
    then have "g \<in> set pop" using Cons.prems by simp
    then show ?thesis using Cons.IH by simp
  qed
qed

lemma search_iter_Some_Inr:
  assumes "search_iter c d i (s, l) = Some (Inr (s', l'))"
  obtains objs s1 s2 parents pp ptp pl pm mutated s3 crossed s4 pop' where
    "evaluate_population c i s l = Inr (objs, s1)"
    "update_pareto_front c s1 True = Inr s2"
    "select_parents c s2 (selected_idx d) = Inr (parents, pp, ptp, pl, pm)"
    "mutation_loop c parents (mutation_draws d) s2 0 [] = Some (Inr (mutated, s3))"
    "crossover_loop c parents (crossover_draws d) s3 0 [] = Some (Inr (crossed, s4))"
    "next_population c s4 parents mutated crossed = Inr (pop', s')"
    "population l' = pop'" "parents_params l' = pp" "parents_total_params l' = ptp"
    "parents_latencies l' = pl" "parents_memories l' = pm"
    "logs l' = logs l @
       [\<lparr>log_population = population l, log_params = fst objs,
         log_total_params = fst (snd objs), log_latencies = fst (snd (snd objs)),
         log_memories = snd (snd (snd objs)), log_parents = parents,
         log_pareto = pareto s2\<rparr>]"
  using assms unfolding search_iter_def
  by (auto split: sum.splits option.splits prod.splits)

subsection \<open>The invariant of the search loop\<close>

lemma in_space_same_allowed:
  "allowed_genes s' = allowed_genes s \<Longrightarrow> in_space s' gene = in_space s gene"
  by (simp add: in_space_def)

lemma update_pareto_front_nonempty:
  "update_pareto_front c s b = Inr s' \<Longrightarrow> all_params s \<noteq> []"
  by (auto simp: update_pareto_front_def history_points_def)

lemma search_start_Some_Inr:
  assumes "search_start c s0 rs = Some (Inr (s, l))"
  obtains pop s1 where
    "sample_random_population c s0 (population_size s0) rs = Some (Inr (pop, s1))"
    "s = update_population_count c (s1\<lparr>all_population := pop\<rparr>) pop"
    "l = \<lparr>population = pop, parents_params = [], parents_total_params = [],
          parents_latencies = [], parents_memories = [], logs = []\<rparr>"
  using assms unfolding search_start_def
  by (auto split: sum.splits option.splits prod.splits)

text \<open>
  The invariant holds at the head of generation 0.
\<close>

lemma search_start_invariant:
  assumes fresh: "fresh s0" and start: "search_start c s0 rs = Some (Inr (s, l))"
  shows "loop_invariant c s0 0 s l"
proof -
  from start obtain pop s1 where
    sample: "sample_random_population c s0 (population_size s0) rs = Some (Inr (pop, s1))"
    and s: "s = update_population_count c (s1\<lparr>all_population := pop\<rparr>) pop"
    and l: "l = \<lparr>population = pop, parents_params = [], parents_total_params = [],
          parents_latencies = [], parents_memories = [], logs = []\<rparr>"
    by (rule search_start_Some_Inr)
  from sample_loop_result[OF sample[unfolded sample_random_population_def]]
  obtain cs where len: "length pop = population_size s0"
    and space: "\<forall>g \<in> set pop. in_space s0 g"
    and s1: "s1 = s0\<lparr>calls := calls s0 @ cs\<rparr>"
    by auto
  define m where "m = counts s"
  have "s = (s1\<lparr>all_population := pop\<rparr>)\<lparr>counts := m\<rparr>"
    using update_population_count_frame[of c "s1\<lparr>all_population := pop\<rparr>" pop]
    unfolding s[symmetric] m_def .
  then have s_eq: "s = s0\<lparr>all_population := pop, counts := m, calls := calls s0 @ cs\<rparr>"
    by (simp add: s1)
  have counted: "\<forall>g \<in> set pop. 0 < count_of s (gene_to_key c g)"
    unfolding s by (simp add: count_of_update_population_count_member)
  have space': "\<forall>g \<in> set pop. in_space s g"
    using space by (simp add: s_eq in_space_def)
  have settings: "same_settings s0 s"
    by (simp add: s_eq same_settings_def)
  have "calls s = calls s1" by (simp add: s_eq s1)
  then have "evaluated s = evaluated s1" by (simp add: evaluated_def)
  then have evaluated: "evaluated s = evaluated s0"
    using sample_loop_evaluated[OF sample[unfolded sample_random_population_def]] by simp
  show ?thesis
    unfolding loop_invariant_def Let_def list_all_iff
    using fresh len counted space' settings evaluated
    by (simp add: fresh_def) (simp add: s_eq l)
qed

lemma next_population_Inr:
  assumes "next_population c s parents mutated crossed = Inr (pop', s')"
  shows "pop' = parents @ mutated @ crossed"
    and "length pop' = population_size s"
    and "s' = s\<lparr>all_population := all_population s @ mutated @ crossed,
                counts := counts (update_population_count c s pop')\<rparr>"
proof -
  show pop': "pop' = parents @ mutated @ crossed"
    using assms by (auto simp: next_population_def Let_def split: if_splits)
  show "length pop' = population_size s"
    using assms by (auto simp: next_population_def Let_def split: if_splits)
  define t where "t = update_population_count c s pop'"
  have t: "t = s\<lparr>counts := counts t\<rparr>"
    unfolding t_def by (rule update_population_count_frame)
  have "s' = t\<lparr>all_population := all_population t @ mutated @ crossed\<rparr>"
    using assms pop' by (auto simp: next_population_def Let_def t_def split: if_splits)
  also have "\<dots> = s\<lparr>all_population := all_population s @ mutated @ crossed,
      counts := counts t\<rparr>"
    by (subst t, subst (2) t) simp
  finally show "s' = s\<lparr>all_population := all_population s @ mutated @ crossed,
                counts := counts (update_population_count c s pop')\<rparr>"
    by (simp add: t_def)
qed

text \<open>
  A generation that returns keeps the invariant.
\<close>

lemma evaluated_after_evaluation:
  "concat (map ((\<lambda>x. case x of Evaluate gene \<Rightarrow> [gene] | _ \<Rightarrow> []) \<circ> Evaluate) genes) = genes"
  by (induction genes) simp_all

lemma search_iter_invariant:
  assumes inv: "loop_invariant c s0 i s l"
    and iter: "search_iter c d i (s, l) = Some (Inr (s', l'))"
  shows "loop_invariant c s0 (Suc i) s' l'"
proof -
  from iter obtain objs s1 s2 parents pp ptp pl pm mutated s3 crossed s4 pop' where
    ev: "evaluate_population c i s l = Inr (objs, s1)"
    and up: "update_pareto_front c s1 True = Inr s2"
    and sel: "select_parents c s2 (selected_idx d) = Inr (parents, pp, ptp, pl, pm)"
    and mut: "mutation_loop c parents (mutation_draws d) s2 0 [] = Some (Inr (mutated, s3))"
    and cross: "crossover_loop c parents (crossover_draws d) s3 0 [] = Some (Inr (crossed, s4))"
    and nxt: "next_population c s4 parents mutated crossed = Inr (pop', s')"
    and l': "population l' = pop'" "parents_params l' = pp" "parents_total_params l' = ptp"
      "parents_latencies l' = pl" "parents_memories l' = pm"
    by (rule search_iter_Some_Inr)
  define unseen where "unseen = drop (if i = 0 then 0 else parent_size s) (population l)"
  define h where "h = length (all_params s)"
  from inv have settings: "same_settings s0 s"
    and sizes: "population_size s = parent_size s + mutation_size s + crossover_size s"
    and lens: "length (all_total_params s) = h" "length (all_latencies s) = h"
      "length (all_memories s) = h"
    and hist: "all_population s = take h (all_population s) @ unseen"
      "length (take h (all_population s)) = h"
    and vals: "all_params s = map (measure_decoder_params c) (take h (all_population s))"
      "all_total_params s = map (measure_total_params c) (take h (all_population s))"
      "all_latencies s = map (measure_inference_latency c) (take h (all_population s))"
      "all_memories s = map (measure_peak_memory c) (take h (all_population s))"
    and evald: "evaluated s = evaluated s0 @ take h (all_population s)"
    and counted: "\<forall>g \<in> set (all_population s). 0 < count_of s (gene_to_key c g)"
    and space: "\<forall>g \<in> set (all_population s). in_space s g"
    unfolding loop_invariant_def Let_def list_all_iff h_def unseen_def by simp_all
  have hist_len: "length (all_population s) = h + length unseen"
    using hist by (metis length_append)
  have s1: "s1 = s\<lparr>all_params := all_params s @ map (measure_decoder_params c) unseen,
      all_total_params := all_total_params s @ map (measure_total_params c) unseen,
      all_latencies := all_latencies s @ map (measure_inference_latency c) unseen,
      all_memories := all_memories s @ map (measure_peak_memory c) unseen,
      calls := calls s @ map Evaluate unseen\<rparr>"
    using ev unfolding evaluate_population_eq Let_def unseen_def[symmetric]
    by (simp split: if_splits)
  have ne: "all_params s1 \<noteq> []" using up by (rule update_pareto_front_nonempty)
  define p_inds where "p_inds =
    find_pareto_points c
      (zip (map (\<lambda>p. real_of_int (Max (set (all_params s1)) - p)) (all_params s1))
         (zip (all_latencies s1) (all_memories s1))) True"
  have aligned: "length (all_population s1) = length (all_params s1)"
    "length (all_total_params s1) = length (all_params s1)"
    "length (all_latencies s1) = length (all_params s1)"
    "length (all_memories s1) = length (all_params s1)"
    using lens hist_len by (simp_all add: s1 h_def)
  have up': "(if \<forall>j \<in> set p_inds. j < length (all_population s1)
         then Inr (s1\<lparr>pareto :=
                      \<lparr>pareto_population = map (\<lambda>j. all_population s1 ! j) p_inds,
                       pareto_params = map (\<lambda>j. all_params s1 ! j) p_inds,
                       pareto_total_params = map (\<lambda>j. all_total_params s1 ! j) p_inds,
                       pareto_latencies = map (\<lambda>j. all_latencies s1 ! j) p_inds,
                       pareto_memories = map (\<lambda>j. all_memories s1 ! j) p_inds\<rparr>\<rparr>)
         else Inl IndexError) = Inr s2"
    using update_pareto_front_aligned[OF ne aligned, of c True] up
    by (simp add: Let_def p_inds_def)
  then have inds: "\<forall>j \<in> set p_inds. j < length (all_population s1)"
    by (simp split: if_splits)
  have s2: "s2 = s1\<lparr>pareto :=
                      \<lparr>pareto_population = map (\<lambda>j. all_population s1 ! j) p_inds,
                       pareto_params = map (\<lambda>j. all_params s1 ! j) p_inds,
                       pareto_total_params = map (\<lambda>j. all_total_params s1 ! j) p_inds,
                       pareto_latencies = map (\<lambda>j. all_latencies s1 ! j) p_inds,
                       pareto_memories = map (\<lambda>j. all_memories s1 ! j) p_inds\<rparr>\<rparr>"
    using up' inds by simp
  have frontier_sub: "set (pareto_population (pareto s2)) \<subseteq> set (all_population s)"
    using inds by (auto simp: s2 s1)
  from select_parents_Inr[OF sel]
  have sel_in: "\<forall>j < parent_size s2. selected_idx d j < length (pareto_population (pareto s2))"
    and parents: "parents = map (\<lambda>j. pareto_population (pareto s2) ! selected_idx d j)
        [0 ..< parent_size s2]"
    and pp: "length pp = parent_size s2" "length ptp = parent_size s2"
      "length pl = parent_size s2" "length pm = parent_size s2"
    by simp_all
  have parents_sub: "set parents \<subseteq> set (all_population s)"
    using sel_in frontier_sub by (auto simp: parents)
  have parents_len: "length parents = parent_size s" by (simp add: parents s2 s1)
  have space2: "in_space s2 g = in_space s g" for g
    by (rule in_space_same_allowed) (simp add: s2 s1)
  have parents_space: "\<forall>p \<in> set parents. in_space s2 p"
    using parents_sub space space2 by blast
  from mutation_loop_result[OF mut]
  obtain cs3 where mutated_len: "length mutated = mutation_size s2"
    and mutated_space: "\<forall>g \<in> set mutated. in_space s2 g"
    and s3: "s3 = s2\<lparr>calls := calls s2 @ cs3\<rparr>"
    using parents_space by auto
  have parents_space3: "\<forall>p \<in> set parents. in_space s3 p"
    using parents_space by (simp add: s3)
  from crossover_loop_result[OF cross]
  obtain cs4 where crossed_len: "length crossed = crossover_size s3"
    and crossed_space: "\<forall>g \<in> set crossed. in_space s3 g"
    and s4: "s4 = s3\<lparr>calls := calls s3 @ cs4\<rparr>"
    using parents_space3 by auto
  note nxt' = next_population_Inr[OF nxt]
  define m where "m = counts (update_population_count c s4 pop')"
  have s': "s' = s\<lparr>all_params := all_params s @ map (measure_decoder_params c) unseen,
      all_total_params := all_total_params s @ map (measure_total_params c) unseen,
      all_latencies := all_latencies s @ map (measure_inference_latency c) unseen,
      all_memories := all_memories s @ map (measure_peak_memory c) unseen,
      calls := calls s @ map Evaluate unseen @ cs3 @ cs4,
      pareto := pareto s2,
      all_population := all_population s @ mutated @ crossed,
      counts := m\<rparr>"
    unfolding nxt'(3) m_def[symmetric] by (simp add: s4 s3 s2 s1)
  have count_mono: "count_of s k \<le> count_of s' k" for k
  proof -
    have "count_of s k = count_of s4 k" by (simp add: count_of_def s4 s3 s2 s1)
    also have "\<dots> \<le> count_of (update_population_count c s4 pop') k"
      by (rule count_of_update_population_count_mono)
    also have "\<dots> = count_of s' k" by (simp add: count_of_def s' m_def)
    finally show ?thesis .
  qed
  have count_new: "0 < count_of s' (gene_to_key c g)" if "g \<in> set pop'" for g
  proof -
    have "0 < count_of (update_population_count c s4 pop') (gene_to_key c g)"
      using that by (rule count_of_update_population_count_member)
    then show ?thesis by (simp add: count_of_def s' m_def)
  qed
  have space': "in_space s' g = in_space s g" for g
    by (rule in_space_same_allowed) (simp add: s')
  have c1: "same_settings s0 s'"
    using settings by (simp add: same_settings_def s')
  have c2: "population_size s' = parent_size s' + mutation_size s' + crossover_size s'"
    using sizes by (simp add: s')
  have c3: "length (population l') = population_size s'"
    using nxt'(2) by (simp add: l' s' s4 s3 s2 s1)
  have c4: "length (all_total_params s') = length (all_params s')"
    "length (all_latencies s') = length (all_params s')"
    "length (all_memories s') = length (all_params s')"
    using lens by (simp_all add: s' h_def)
  have h': "length (all_params s') = length (all_population s)"
    using hist_len by (simp add: s' h_def)
  have c5: "all_population s' =
      take (length (all_params s')) (all_population s') @ drop (parent_size s') (population l')"
    using parents_len by (simp add: h' l' nxt'(1)) (simp add: s')
  have c6: "length (take (length (all_params s')) (all_population s')) = length (all_params s')"
    by (simp add: h') (simp add: s')
  have take': "take (length (all_params s')) (all_population s') = all_population s"
    by (simp add: h') (simp add: s')
  have c11: "all_params s' =
      map (measure_decoder_params c) (take (length (all_params s')) (all_population s'))"
    "all_total_params s' =
      map (measure_total_params c) (take (length (all_params s')) (all_population s'))"
    "all_latencies s' =
      map (measure_inference_latency c) (take (length (all_params s')) (all_population s'))"
    "all_memories s' =
      map (measure_peak_memory c) (take (length (all_params s')) (all_population s'))"
    unfolding take'
    by (subst hist(1), simp add: s' vals[symmetric])+
  have "evaluated s1 = evaluated s @ unseen"
    by (simp add: s1 evaluated_def evaluated_after_evaluation)
  moreover have "evaluated s2 = evaluated s1" by (simp add: s2 evaluated_def)
  moreover have "evaluated s3 = evaluated s2" using mut by (rule mutation_loop_evaluated)
  moreover have "evaluated s4 = evaluated s3" using cross by (rule crossover_loop_evaluated)
  moreover have "evaluated s' = evaluated s4" by (simp add: nxt'(3) evaluated_def)
  ultimately have "evaluated s' = evaluated s0 @ take h (all_population s) @ unseen"
    using evald by simp
  then have c12: "evaluated s' =
      evaluated s0 @ take (length (all_params s')) (all_population s')"
    unfolding take' using hist(1) by simp
  have c7: "length (parents_params l') = parent_size s'"
    "length (parents_total_params l') = parent_size s'"
    "length (parents_latencies l') = parent_size s'"
    "length (parents_memories l') = parent_size s'"
    using pp by (simp_all add: l' s' s2 s1)
  have c8: "\<forall>g \<in> set (all_population s'). 0 < count_of s' (gene_to_key c g)"
  proof
    fix g assume "g \<in> set (all_population s')"
    then consider "g \<in> set (all_population s)" | "g \<in> set pop'"
      by (auto simp: s' nxt'(1))
    then show "0 < count_of s' (gene_to_key c g)"
    proof cases
      case 1
      then have "0 < count_of s (gene_to_key c g)" using counted by blast
      then show ?thesis using count_mono[of "gene_to_key c g"] by linarith
    next
      case 2
      then show ?thesis by (rule count_new)
    qed
  qed
  have c9: "\<forall>g \<in> set (all_population s'). in_space s' g"
  proof
    fix g assume "g \<in> set (all_population s')"
    then consider "g \<in> set (all_population s)" | "g \<in> set mutated" | "g \<in> set crossed"
      by (auto simp: s')
    then have "in_space s g"
    proof cases
      case 1
      then show ?thesis using space by blast
    next
      case 2
      then show ?thesis using mutated_space space2 by blast
    next
      case 3
      then have "in_space s3 g" using crossed_space by blast
      then show ?thesis using space2 by (simp add: s3)
    qed
    then show "in_space s' g" by (simp add: space')
  qed
  have c10: "\<forall>g \<in> set (population l'). g \<in> set (all_population s')"
    using parents_sub by (auto simp: l' nxt'(1) s')
  show ?thesis
    unfolding loop_invariant_def Let_def list_all_iff
    using c1 c2 c3 c4 c5 c6 c7 c8 c9 c10 c11 c12 by simp
qed

lemma search_from_snoc:
  "search_from c d (js @ [i]) sl =
     (case search_from c d js sl of
        None \<Rightarrow> None
      | Some (Inl e) \<Rightarrow> Some (Inl e)
      | Some (Inr sl') \<Rightarrow> search_iter c (d i) i sl')"
  by (induction js arbitrary: sl) (auto split: option.splits sum.splits)

lemma generation_0: "generation c s rs d 0 = search_start c s rs"
  by (auto simp: generation_def split: option.splits sum.splits)

lemma generation_Suc:
  "generation c s rs d (Suc i) =
     (case generation c s rs d i of
        None \<Rightarrow> None
      | Some (Inl e) \<Rightarrow> Some (Inl e)
      | Some (Inr sl) \<Rightarrow> search_iter c (d i) i sl)"
  by (auto simp: generation_def search_from_snoc split: option.splits sum.splits)

text \<open>
  So the invariant holds at the head of every generation a run reaches.
\<close>

lemma generation_invariant:
  "fresh s0 \<Longrightarrow> generation c s0 rs d i = Some (Inr (s, l)) \<Longrightarrow> loop_invariant c s0 i s l"
proof (induction i arbitrary: s l)
  case 0
  then show ?case by (simp add: generation_0 search_start_invariant)
next
  case (Suc i)
  from Suc.prems(2) obtain s' l' where
    prev: "generation c s0 rs d i = Some (Inr (s', l'))"
    and iter: "search_iter c (d i) i (s', l') = Some (Inr (s, l))"
    by (auto simp: generation_Suc split: option.splits sum.splits)
  from Suc.IH[OF Suc.prems(1) prev] iter show ?case
    by (rule search_iter_invariant)
qed



subsection \<open>The example run\<close>

text \<open>
  The example evaluated stage by stage: the initial population, generation 0
  and the evaluation of generation 1.
\<close>

lemma example_sample:
  "sample_random_population example_collaborators example_evolution 4 example_samples =
     Some (Inr ([[0, 0], [1, 1], [1, 0], [1, 0]], example_evolution))"
  by (simp add: sample_random_population_def example_samples_def sample_loop.simps
      gene_size_def example_evolution_def example_collaborators_def check_constraints_def
      choices_def index_def zero_draws_def half_draws_def high_low_def low_high_def
      upt_rec Let_def)

lemma example_sizes:
  "population_size example_evolution = 4" "parent_size example_evolution = 2"
  "mutation_size example_evolution = 1" "crossover_size example_evolution = 1"
  "gene_size example_evolution = 2"
  by (simp_all add: example_evolution_def gene_size_def)

lemma example_count:
  "update_population_count example_collaborators
     (example_evolution\<lparr>all_population := [[0, 0], [1, 1], [1, 0], [1, 0]]\<rparr>)
     [[0, 0], [1, 1], [1, 0], [1, 0]] = example_counted"
  by (simp add: example_counted_def update_gene_count_def count_of_def
      example_collaborators_def example_evolution_def Let_def fun_eq_iff)

lemma example_start:
  "search_start example_collaborators example_evolution example_samples =
     Some (Inr (example_counted, example_locals))"
  by (simp only: search_start_def example_sizes example_sample option.case sum.case prod.case
      example_count example_locals_def)

lemma example_evaluate:
  "evaluate_population example_collaborators 0 example_counted example_locals =
     Inr (([0, 2, 1, 1], [1, 3, 2, 2], [0, 2, 1, 1], [1, 1, 1, 1]), example_evaluated)"
  by (simp add: evaluate_population_eq example_locals_def example_counted_def
      example_evaluated_def example_evolution_def example_collaborators_def Let_def)

lemma example_frontier:
  "update_pareto_front example_collaborators example_evaluated True = Inr example_selecting"
  by (simp add: update_pareto_front_def history_points_def
      example_selecting_def example_evaluated_def example_counted_def example_evolution_def
      example_collaborators_def non_dominated_def dominates_def index_def upt_rec Let_def)

lemma example_select:
  "select_parents example_collaborators example_selecting (selected_idx (example_draws 0)) =
     Inr ([[0, 0], [1, 1]], [0, 2], [1, 3], [0, 2], [1, 1])"
  by (simp add: select_parents_def calculate_weighted_count_def example_selecting_def example_evaluated_def example_counted_def
      example_evolution_def example_collaborators_def example_draws_def count_of_def
      py_div_def index_def upt_rec Let_def)

lemma example_mutation:
  "mutation_loop example_collaborators [[0, 0], [1, 1]] (mutation_draws (example_draws 0))
     example_selecting 0 [] = Some (Inr ([[0, 1]], example_selecting))"
  by (simp add: mutation_loop.simps mutation_def check_constraints_def is_seen_before_def
      example_selecting_def example_evaluated_def example_counted_def example_evolution_def example_collaborators_def
      example_draws_def gene_size_def choices_def index_def high_low_def half_draws_def
      upt_rec Let_def)

lemma example_crossover:
  "crossover_loop example_collaborators [[0, 0], [1, 1]] (crossover_draws (example_draws 0))
     example_selecting 0 [] = Some (Inr ([[0, 1]], example_selecting))"
  by (simp add: crossover_loop.simps crossover_def sample2_def check_constraints_def
      is_seen_before_def example_selecting_def example_evaluated_def example_counted_def example_evolution_def
      example_collaborators_def example_draws_def gene_size_def index_def low_high_def
      upt_rec Let_def)

lemma example_replace:
  "next_population example_collaborators example_selecting [[0, 0], [1, 1]] [[0, 1]] [[0, 1]] =
     Inr ([[0, 0], [1, 1], [0, 1], [0, 1]], example_next)"
  by (simp add: next_population_def update_gene_count_def count_of_def example_next_def
      example_selecting_def example_evaluated_def example_counted_def example_evolution_def example_collaborators_def Let_def
      fun_eq_iff)

lemma example_iter:
  "search_iter example_collaborators (example_draws 0) 0 (example_counted, example_locals) =
     Some (Inr (example_next, example_next_locals))"
  by (simp add: search_iter_def example_evaluate example_frontier example_select
      example_mutation example_crossover example_replace example_next_locals_def)
    (simp add: example_locals_def)

lemma example_generation_1:
  "generation example_collaborators example_evolution example_samples example_draws 1 =
     Some (Inr (example_next, example_next_locals))"
  using generation_Suc[of example_collaborators example_evolution example_samples example_draws 0]
  by (simp add: generation_0 example_start example_iter)

lemma example_evaluate_1:
  "evaluate_population example_collaborators 1 example_next example_next_locals =
     Inr (([0, 2, 1, 1], [1, 3, 2, 2], [0, 2, 1, 1], [1, 1, 1, 1]), example_reevaluated)"
  by (simp add: evaluate_population_eq example_next_locals_def example_next_def
      example_reevaluated_def example_selecting_def example_evaluated_def
      example_counted_def example_evolution_def example_collaborators_def Let_def)

lemma example_fresh: "fresh example_evolution"
  by (simp add: fresh_def example_evolution_def)


subsection \<open>The claims about the search loop\<close>

lemma update_pareto_front_frame:
  "update_pareto_front c s b = Inr s' \<Longrightarrow> \<exists>p. s' = s\<lparr>pareto := p\<rparr>"
  by (auto simp: update_pareto_front_def Let_def split: sum.splits if_splits)

lemma update_pareto_front_ignores_frontier:
  "update_pareto_front c (s\<lparr>pareto := p\<rparr>) b = update_pareto_front c s b"
  by (simp add: update_pareto_front_def history_points_def Let_def split: sum.splits)

lemma zip_points:
  assumes "length ys = length ps" and "length zs = length ps"
  shows "zip (map f ps) (zip ys zs) = map (\<lambda>j. (f (ps ! j), ys ! j, zs ! j)) [0 ..< length ps]"
  using assms by (intro nth_equalityI) simp_all

lemma evaluate_population_in_generation:
  assumes inv: "loop_invariant c s0 i s l"
  shows "evaluate_population c i s l =
     (let unseen = drop (if i = 0 then 0 else parent_size s) (population l)
      in Inr ((parents_params l @ map (measure_decoder_params c) unseen,
               parents_total_params l @ map (measure_total_params c) unseen,
               parents_latencies l @ map (measure_inference_latency c) unseen,
               parents_memories l @ map (measure_peak_memory c) unseen),
              s\<lparr>all_params := all_params s @ map (measure_decoder_params c) unseen,
                all_total_params := all_total_params s @ map (measure_total_params c) unseen,
                all_latencies := all_latencies s @ map (measure_inference_latency c) unseen,
                all_memories := all_memories s @ map (measure_peak_memory c) unseen,
                calls := calls s @ map Evaluate unseen\<rparr>))"
proof -
  from inv have "length (population l) = population_size s"
    and "population_size s = parent_size s + mutation_size s + crossover_size s"
    and "length (parents_params l) = (if i = 0 then 0 else parent_size s)"
    and "length (parents_total_params l) = (if i = 0 then 0 else parent_size s)"
    and "length (parents_latencies l) = (if i = 0 then 0 else parent_size s)"
    and "length (parents_memories l) = (if i = 0 then 0 else parent_size s)"
    unfolding loop_invariant_def Let_def by simp_all
  then show ?thesis
    unfolding evaluate_population_eq Let_def by simp
qed

lemma history_after_evaluation:
  assumes inv: "loop_invariant c s0 i s l"
    and ev: "evaluate_population c i s l = Inr (objs, s1)"
  shows "all_population s1 = all_population s"
    and "all_params s1 = map (measure_decoder_params c) (all_population s1)"
    and "all_total_params s1 = map (measure_total_params c) (all_population s1)"
    and "all_latencies s1 = map (measure_inference_latency c) (all_population s1)"
    and "all_memories s1 = map (measure_peak_memory c) (all_population s1)"
    and "evaluated s1 = evaluated s0 @ all_population s1"
proof -
  define unseen where "unseen = drop (if i = 0 then 0 else parent_size s) (population l)"
  define h where "h = length (all_params s)"
  from inv have hist: "all_population s = take h (all_population s) @ unseen"
    and evald: "evaluated s = evaluated s0 @ take h (all_population s)"
    and vals: "all_params s = map (measure_decoder_params c) (take h (all_population s))"
      "all_total_params s = map (measure_total_params c) (take h (all_population s))"
      "all_latencies s = map (measure_inference_latency c) (take h (all_population s))"
      "all_memories s = map (measure_peak_memory c) (take h (all_population s))"
    unfolding loop_invariant_def Let_def h_def unseen_def by simp_all
  have s1: "s1 = s\<lparr>all_params := all_params s @ map (measure_decoder_params c) unseen,
      all_total_params := all_total_params s @ map (measure_total_params c) unseen,
      all_latencies := all_latencies s @ map (measure_inference_latency c) unseen,
      all_memories := all_memories s @ map (measure_peak_memory c) unseen,
      calls := calls s @ map Evaluate unseen\<rparr>"
    using ev unfolding evaluate_population_in_generation[OF inv] Let_def unseen_def[symmetric]
    by simp
  show pop: "all_population s1 = all_population s" by (simp add: s1)
  show "all_params s1 = map (measure_decoder_params c) (all_population s1)"
    unfolding pop by (subst hist, simp add: s1 vals[symmetric])
  show "all_total_params s1 = map (measure_total_params c) (all_population s1)"
    unfolding pop by (subst hist, simp add: s1 vals[symmetric])
  show "all_latencies s1 = map (measure_inference_latency c) (all_population s1)"
    unfolding pop by (subst hist, simp add: s1 vals[symmetric])
  show "all_memories s1 = map (measure_peak_memory c) (all_population s1)"
    unfolding pop by (subst hist, simp add: s1 vals[symmetric])
  have "evaluated s1 = evaluated s @ unseen"
    by (simp add: s1 evaluated_def evaluated_after_evaluation)
  then show "evaluated s1 = evaluated s0 @ all_population s1"
    unfolding pop by (subst hist, simp add: evald)
qed

text \<open>
  C1. In every generation of a run, the frontier is recomputed over the whole
  history. \<open>s1\<close> is the state in which \<^verbatim>\<open>search\<close> calls \<^verbatim>\<open>_update_pareto_front\<close> in
  generation \<open>i\<close>. There \<^verbatim>\<open>all_population\<close> holds the genes evaluated since the start
  of the run, in order, and the lists of objective values hold the measurements
  of every one of them; the points handed to
  \<^verbatim>\<open>find_pareto_points\<close> are, for every index of the history, the decoder
  parameters subtracted from their maximum, the latency and the memory, with
  \<^verbatim>\<open>is_decreasing\<close> True; the new frontier is the history at the indices returned
  (IndexError if one is out of range, ValueError on an empty history); and
  the frontier of the generation before is not read. \<open>fresh s0\<close> holds for what
  \<^verbatim>\<open>__init__\<close> returns (lemma \<open>init_fresh\<close>).
\<close>

theorem pareto_front_over_history:
  assumes "fresh s0"
    and "generation c s0 rs d i = Some (Inr (s, l))"
    and "evaluate_population c i s l = Inr (objs, s1)"
  shows "evaluated s1 = evaluated s0 @ all_population s1 \<and>
     all_params s1 = map (measure_decoder_params c) (all_population s1) \<and>
     all_total_params s1 = map (measure_total_params c) (all_population s1) \<and>
     all_latencies s1 = map (measure_inference_latency c) (all_population s1) \<and>
     all_memories s1 = map (measure_peak_memory c) (all_population s1) \<and>
     update_pareto_front c s1 True =
       (if all_population s1 = [] then Inl ValueError
        else
          (let p_inds =
                 find_pareto_points c
                   (map (\<lambda>j. (real_of_int (Max (set (all_params s1)) - all_params s1 ! j),
                               all_latencies s1 ! j, all_memories s1 ! j))
                      [0 ..< length (all_population s1)])
                   True
           in if \<forall>j \<in> set p_inds. j < length (all_population s1)
              then Inr (s1\<lparr>pareto :=
                           \<lparr>pareto_population = map (\<lambda>j. all_population s1 ! j) p_inds,
                            pareto_params = map (\<lambda>j. all_params s1 ! j) p_inds,
                            pareto_total_params = map (\<lambda>j. all_total_params s1 ! j) p_inds,
                            pareto_latencies = map (\<lambda>j. all_latencies s1 ! j) p_inds,
                            pareto_memories = map (\<lambda>j. all_memories s1 ! j) p_inds\<rparr>\<rparr>)
              else Inl IndexError)) \<and>
     (\<forall>p. update_pareto_front c (s1\<lparr>pareto := p\<rparr>) True = update_pareto_front c s1 True)"
proof -
  have inv: "loop_invariant c s0 i s l"
    using assms(1,2) by (rule generation_invariant)
  note hist = history_after_evaluation[OF inv assms(3)]
  have lens: "length (all_params s1) = length (all_population s1)"
    "length (all_total_params s1) = length (all_population s1)"
    "length (all_latencies s1) = length (all_population s1)"
    "length (all_memories s1) = length (all_population s1)"
    by (subst hist(2), simp) (subst hist(3), simp, subst hist(4), simp, subst hist(5), simp)
  have front: "update_pareto_front c s1 True =
       (if all_population s1 = [] then Inl ValueError
        else
          (let p_inds =
                 find_pareto_points c
                   (map (\<lambda>j. (real_of_int (Max (set (all_params s1)) - all_params s1 ! j),
                               all_latencies s1 ! j, all_memories s1 ! j))
                      [0 ..< length (all_population s1)])
                   True
           in if \<forall>j \<in> set p_inds. j < length (all_population s1)
              then Inr (s1\<lparr>pareto :=
                           \<lparr>pareto_population = map (\<lambda>j. all_population s1 ! j) p_inds,
                            pareto_params = map (\<lambda>j. all_params s1 ! j) p_inds,
                            pareto_total_params = map (\<lambda>j. all_total_params s1 ! j) p_inds,
                            pareto_latencies = map (\<lambda>j. all_latencies s1 ! j) p_inds,
                            pareto_memories = map (\<lambda>j. all_memories s1 ! j) p_inds\<rparr>\<rparr>)
              else Inl IndexError))"
  proof (cases "all_population s1 = []")
    case True
    then have "all_params s1 = []" using lens by simp
    then show ?thesis using True
      by (simp add: update_pareto_front_def history_points_def)
  next
    case False
    then have ne: "all_params s1 \<noteq> []" using lens by auto
    have pts: "zip (map (\<lambda>p. real_of_int (Max (set (all_params s1)) - p)) (all_params s1))
        (zip (all_latencies s1) (all_memories s1)) =
      map (\<lambda>j. (real_of_int (Max (set (all_params s1)) - all_params s1 ! j),
                 all_latencies s1 ! j, all_memories s1 ! j))
        [0 ..< length (all_population s1)]"
      using zip_points[of "all_latencies s1" "all_params s1" "all_memories s1"
          "\<lambda>p. real_of_int (Max (set (all_params s1)) - p)"] lens
      by simp
    have "update_pareto_front c s1 True =
       (let p_inds =
              find_pareto_points c
                (zip (map (\<lambda>p. real_of_int (Max (set (all_params s1)) - p)) (all_params s1))
                   (zip (all_latencies s1) (all_memories s1)))
                True
        in if \<forall>j \<in> set p_inds. j < length (all_population s1)
           then Inr (s1\<lparr>pareto :=
                        \<lparr>pareto_population = map (\<lambda>j. all_population s1 ! j) p_inds,
                         pareto_params = map (\<lambda>j. all_params s1 ! j) p_inds,
                         pareto_total_params = map (\<lambda>j. all_total_params s1 ! j) p_inds,
                         pareto_latencies = map (\<lambda>j. all_latencies s1 ! j) p_inds,
                         pareto_memories = map (\<lambda>j. all_memories s1 ! j) p_inds\<rparr>\<rparr>)
           else Inl IndexError)"
      by (rule update_pareto_front_aligned) (simp_all add: ne lens)
    then have "update_pareto_front c s1 True =
       (let p_inds =
              find_pareto_points c
                (map (\<lambda>j. (real_of_int (Max (set (all_params s1)) - all_params s1 ! j),
                            all_latencies s1 ! j, all_memories s1 ! j))
                   [0 ..< length (all_population s1)])
                True
        in if \<forall>j \<in> set p_inds. j < length (all_population s1)
           then Inr (s1\<lparr>pareto :=
                        \<lparr>pareto_population = map (\<lambda>j. all_population s1 ! j) p_inds,
                         pareto_params = map (\<lambda>j. all_params s1 ! j) p_inds,
                         pareto_total_params = map (\<lambda>j. all_total_params s1 ! j) p_inds,
                         pareto_latencies = map (\<lambda>j. all_latencies s1 ! j) p_inds,
                         pareto_memories = map (\<lambda>j. all_memories s1 ! j) p_inds\<rparr>\<rparr>)
           else Inl IndexError)"
      unfolding pts .
    then show ?thesis using False by simp
  qed
  show ?thesis
    using hist(2-6) front update_pareto_front_ignores_frontier by blast
qed

theorem pareto_front_over_history_witness:
  "fresh example_evolution \<and>
   generation example_collaborators example_evolution example_samples example_draws 1 =
     Some (Inr (example_next, example_next_locals)) \<and>
   evaluate_population example_collaborators 1 example_next example_next_locals =
     Inr (([0, 2, 1, 1], [1, 3, 2, 2], [0, 2, 1, 1], [1, 1, 1, 1]), example_reevaluated) \<and>
   population example_next_locals = [[0, 0], [1, 1], [0, 1], [0, 1]] \<and>
   all_population example_reevaluated = [[0, 0], [1, 1], [1, 0], [1, 0], [0, 1], [0, 1]] \<and>
   map_sum id (pareto_population \<circ> pareto)
     (update_pareto_front example_collaborators example_reevaluated True) =
     Inr [[0, 0], [1, 1], [1, 0], [1, 0], [0, 1], [0, 1]]"
proof -
  have front: "map_sum id (pareto_population \<circ> pareto)
     (update_pareto_front example_collaborators example_reevaluated True) =
     Inr [[0, 0], [1, 1], [1, 0], [1, 0], [0, 1], [0, 1]]"
    by (simp add: update_pareto_front_def history_points_def example_reevaluated_def
        example_next_def example_selecting_def example_evaluated_def example_counted_def
        example_evolution_def example_collaborators_def non_dominated_def dominates_def
        index_def upt_rec Let_def)
  have pops: "population example_next_locals = [[0, 0], [1, 1], [0, 1], [0, 1]]"
    "all_population example_reevaluated = [[0, 0], [1, 1], [1, 0], [1, 0], [0, 1], [0, 1]]"
    by (simp_all add: example_next_locals_def example_reevaluated_def example_next_def)
  show ?thesis
    using pareto_front_over_history [OF example_fresh example_generation_1 example_evaluate_1]
      example_fresh example_generation_1 example_evaluate_1 front pops
    by simp
qed



text \<open>
  The numbers of parents and children the stages of a generation return.
\<close>

lemma stage_lengths:
  assumes ev: "evaluate_population c i s l = Inr (objs, s1)"
    and up: "update_pareto_front c s1 True = Inr s2"
    and sel: "select_parents c s2 sel = Inr (parents, pv)"
    and mut: "mutation_loop c parents mds s2 0 [] = Some (Inr (mutated, s3))"
    and cross: "crossover_loop c parents cds s3 0 [] = Some (Inr (crossed, s4))"
  shows "length parents = parent_size s" and "length mutated = mutation_size s"
    and "length crossed = crossover_size s" and "population_size s4 = population_size s"
proof -
  have s1: "same_settings s s1"
    using ev unfolding evaluate_population_eq Let_def
    by (auto simp: same_settings_def split: if_splits)
  obtain p where s2: "s2 = s1\<lparr>pareto := p\<rparr>"
    using update_pareto_front_frame[OF up] by blast
  obtain pp ptp pl pm where pv: "pv = (pp, ptp, pl, pm)" by (cases pv) auto
  from select_parents_Inr[OF sel[unfolded pv]]
  have parents: "length parents = parent_size s2" by simp
  from mutation_loop_result[OF mut]
  obtain cs3 where mutated: "length mutated = mutation_size s2"
    and s3: "s3 = s2\<lparr>calls := calls s2 @ cs3\<rparr>"
    by auto
  from crossover_loop_result[OF cross]
  obtain cs4 where crossed: "length crossed = crossover_size s3"
    and s4: "s4 = s3\<lparr>calls := calls s3 @ cs4\<rparr>"
    by auto
  show "length parents = parent_size s" using parents s1 by (simp add: s2 same_settings_def)
  show "length mutated = mutation_size s" using mutated s1 by (simp add: s2 same_settings_def)
  show "length crossed = crossover_size s" using crossed s1 by (simp add: s3 s2 same_settings_def)
  show "population_size s4 = population_size s" using s1 by (simp add: s4 s3 s2 same_settings_def)
qed







text \<open>
  A generation that returns has evaluated the members of its population from
  \<open>idx\<close> on, and no other gene.
\<close>

lemma search_iter_evaluated:
  assumes inv: "loop_invariant c s0 i s l"
    and iter: "search_iter c d i (s, l) = Some (Inr (s', l'))"
  shows "evaluated s' =
     evaluated s @ drop (if i = 0 then 0 else parent_size s) (population l)"
proof -
  from iter obtain objs s1 s2 parents pp ptp pl pm mutated s3 crossed s4 pop' where
    ev: "evaluate_population c i s l = Inr (objs, s1)"
    and up: "update_pareto_front c s1 True = Inr s2"
    and mut: "mutation_loop c parents (mutation_draws d) s2 0 [] = Some (Inr (mutated, s3))"
    and cross: "crossover_loop c parents (crossover_draws d) s3 0 [] = Some (Inr (crossed, s4))"
    and nxt: "next_population c s4 parents mutated crossed = Inr (pop', s')"
    by (rule search_iter_Some_Inr)
  define unseen where "unseen = drop (if i = 0 then 0 else parent_size s) (population l)"
  have "calls s1 = calls s @ map Evaluate unseen"
    using ev unfolding evaluate_population_in_generation[OF inv] Let_def unseen_def[symmetric]
    by auto
  then have "evaluated s1 = evaluated s @ unseen"
    by (simp add: evaluated_def evaluated_after_evaluation)
  moreover have "evaluated s2 = evaluated s1"
    using update_pareto_front_frame[OF up] by (auto simp: evaluated_def)
  moreover have "evaluated s3 = evaluated s2" using mut by (rule mutation_loop_evaluated)
  moreover have "evaluated s4 = evaluated s3" using cross by (rule crossover_loop_evaluated)
  moreover have "evaluated s' = evaluated s4"
    by (simp add: next_population_Inr(3)[OF nxt] evaluated_def)
  ultimately show ?thesis by (simp add: unseen_def)
qed

text \<open>
  C3. In generation \<open>i\<close> of a run, \<^verbatim>\<open>_calculate_constraints\<close> is called on the
  members of the population from \<open>idx\<close> on: all \<^verbatim>\<open>population_size\<close> members in
  generation 0, the \<^verbatim>\<open>mutation_size + crossover_size\<close> children after the
  \<^verbatim>\<open>parent_size\<close> parents later. These are the only genes evaluated, their values
  are the only ones appended to the history, and the objective values of the
  population are the parents' values followed by them. The parents' values at
  the head of a generation \<open>i > 0\<close> are those \<^verbatim>\<open>search\<close> took from the frontier with
  the parents in the generation before, and the parents are the first
  \<^verbatim>\<open>parent_size\<close> members of the population. When the generation returns, the
  genes evaluated in it are these members and no others. \<open>fresh s0\<close> holds for
  what \<^verbatim>\<open>__init__\<close> returns (lemma \<open>init_fresh\<close>).
\<close>

theorem evaluation_of_new_members:
  assumes "fresh s0" and "generation c s0 rs d i = Some (Inr (s, l))"
  shows "(let unseen = drop (if i = 0 then 0 else parent_size s0) (population l)
      in length unseen =
           (if i = 0 then population_size s0 else mutation_size s0 + crossover_size s0) \<and>
         evaluate_population c i s l =
           Inr ((parents_params l @ map (measure_decoder_params c) unseen,
                 parents_total_params l @ map (measure_total_params c) unseen,
                 parents_latencies l @ map (measure_inference_latency c) unseen,
                 parents_memories l @ map (measure_peak_memory c) unseen),
                s\<lparr>all_params := all_params s @ map (measure_decoder_params c) unseen,
                  all_total_params := all_total_params s @ map (measure_total_params c) unseen,
                  all_latencies := all_latencies s @ map (measure_inference_latency c) unseen,
                  all_memories := all_memories s @ map (measure_peak_memory c) unseen,
                  calls := calls s @ map Evaluate unseen\<rparr>)) \<and>
     (\<forall>s' l'. search_iter c (d i) i (s, l) = Some (Inr (s', l')) \<longrightarrow>
        evaluated s' =
          evaluated s @ drop (if i = 0 then 0 else parent_size s0) (population l)) \<and>
     (0 < i \<longrightarrow>
        (\<exists>s' l' objs s1 s2 parents.
           generation c s0 rs d (i - 1) = Some (Inr (s', l')) \<and>
           evaluate_population c (i - 1) s' l' = Inr (objs, s1) \<and>
           update_pareto_front c s1 True = Inr s2 \<and>
           select_parents c s2 (selected_idx (d (i - 1))) =
             Inr (parents, parents_params l, parents_total_params l,
                  parents_latencies l, parents_memories l) \<and>
           length parents = parent_size s0 \<and>
           take (parent_size s0) (population l) = parents))"
proof (intro conjI impI)
  have inv: "loop_invariant c s0 i s l"
    using assms by (rule generation_invariant)
  then have same: "same_settings s0 s"
    and sizes: "population_size s = parent_size s + mutation_size s + crossover_size s"
    and len: "length (population l) = population_size s"
    unfolding loop_invariant_def Let_def by simp_all
  have eq: "parent_size s = parent_size s0" "population_size s = population_size s0"
    "mutation_size s = mutation_size s0" "crossover_size s = crossover_size s0"
    using same by (simp_all add: same_settings_def)
  show "let unseen = drop (if i = 0 then 0 else parent_size s0) (population l)
      in length unseen =
           (if i = 0 then population_size s0 else mutation_size s0 + crossover_size s0) \<and>
         evaluate_population c i s l =
           Inr ((parents_params l @ map (measure_decoder_params c) unseen,
                 parents_total_params l @ map (measure_total_params c) unseen,
                 parents_latencies l @ map (measure_inference_latency c) unseen,
                 parents_memories l @ map (measure_peak_memory c) unseen),
                s\<lparr>all_params := all_params s @ map (measure_decoder_params c) unseen,
                  all_total_params := all_total_params s @ map (measure_total_params c) unseen,
                  all_latencies := all_latencies s @ map (measure_inference_latency c) unseen,
                  all_memories := all_memories s @ map (measure_peak_memory c) unseen,
                  calls := calls s @ map Evaluate unseen\<rparr>)"
    using evaluate_population_in_generation[OF inv] sizes len
    unfolding Let_def eq by simp
  show "\<forall>s' l'. search_iter c (d i) i (s, l) = Some (Inr (s', l')) \<longrightarrow>
        evaluated s' =
          evaluated s @ drop (if i = 0 then 0 else parent_size s0) (population l)"
    using search_iter_evaluated[OF inv] unfolding eq by blast
next
  assume pos: "0 < i"
  then obtain j where i: "i = Suc j" by (cases i) auto
  from assms(2) obtain s' l' where
    prev: "generation c s0 rs d j = Some (Inr (s', l'))"
    and iter: "search_iter c (d j) j (s', l') = Some (Inr (s, l))"
    unfolding i by (auto simp: generation_Suc split: option.splits sum.splits)
  from iter obtain objs s1 s2 parents pp ptp pl pm mutated s3 crossed s4 pop' where
    ev: "evaluate_population c j s' l' = Inr (objs, s1)"
    and up: "update_pareto_front c s1 True = Inr s2"
    and sel: "select_parents c s2 (selected_idx (d j)) = Inr (parents, pp, ptp, pl, pm)"
    and mut: "mutation_loop c parents (mutation_draws (d j)) s2 0 [] = Some (Inr (mutated, s3))"
    and cross: "crossover_loop c parents (crossover_draws (d j)) s3 0 [] = Some (Inr (crossed, s4))"
    and nxt: "next_population c s4 parents mutated crossed = Inr (pop', s)"
    and l: "population l = pop'" "parents_params l = pp" "parents_total_params l = ptp"
      "parents_latencies l = pl" "parents_memories l = pm"
    by (rule search_iter_Some_Inr)
  have "loop_invariant c s0 j s' l'"
    using assms(1) prev by (rule generation_invariant)
  then have "same_settings s0 s'"
    unfolding loop_invariant_def Let_def by simp
  then have "parent_size s' = parent_size s0" by (simp add: same_settings_def)
  then have plen: "length parents = parent_size s0"
    using stage_lengths(1)[OF ev up sel mut cross] by simp
  have tk: "take (parent_size s0) (population l) = parents"
    using next_population_Inr(1)[OF nxt] plen by (simp add: l)
  have "generation c s0 rs d (i - 1) = Some (Inr (s', l')) \<and>
      evaluate_population c (i - 1) s' l' = Inr (objs, s1) \<and>
      update_pareto_front c s1 True = Inr s2 \<and>
      select_parents c s2 (selected_idx (d (i - 1))) =
        Inr (parents, parents_params l, parents_total_params l,
             parents_latencies l, parents_memories l)"
    using prev ev up sel by (simp add: i l)
  then show "\<exists>s' l' objs s1 s2 parents.
           generation c s0 rs d (i - 1) = Some (Inr (s', l')) \<and>
           evaluate_population c (i - 1) s' l' = Inr (objs, s1) \<and>
           update_pareto_front c s1 True = Inr s2 \<and>
           select_parents c s2 (selected_idx (d (i - 1))) =
             Inr (parents, parents_params l, parents_total_params l,
                  parents_latencies l, parents_memories l) \<and>
           length parents = parent_size s0 \<and>
           take (parent_size s0) (population l) = parents"
    using plen tk by blast
qed

theorem evaluation_of_new_members_witness:
  "fresh example_evolution \<and>
   generation example_collaborators example_evolution example_samples example_draws 0 =
     Some (Inr (example_counted, example_locals)) \<and>
   search_iter example_collaborators (example_draws 0) 0 (example_counted, example_locals) =
     Some (Inr (example_next, example_next_locals)) \<and>
   evaluated example_counted = [] \<and>
   evaluated example_next = [[0, 0], [1, 1], [1, 0], [1, 0]] \<and>
   generation example_collaborators example_evolution example_samples example_draws 1 =
     Some (Inr (example_next, example_next_locals)) \<and>
   drop (parent_size example_evolution) (population example_next_locals) = [[0, 1], [0, 1]] \<and>
   evaluate_population example_collaborators 1 example_next example_next_locals =
     Inr (([0, 2, 1, 1], [1, 3, 2, 2], [0, 2, 1, 1], [1, 1, 1, 1]), example_reevaluated) \<and>
   calls example_reevaluated = calls example_next @ [Evaluate [0, 1], Evaluate [0, 1]] \<and>
   parents_params example_next_locals = [0, 2] \<and>
   take (parent_size example_evolution) (population example_next_locals) = [[0, 0], [1, 1]]"
proof -
  have gen: "generation example_collaborators example_evolution example_samples example_draws 0 =
     Some (Inr (example_counted, example_locals))"
    by (simp add: generation_0 example_start)
  have "drop (parent_size example_evolution) (population example_next_locals) = [[0, 1], [0, 1]]"
    "calls example_reevaluated = calls example_next @ [Evaluate [0, 1], Evaluate [0, 1]]"
    "parents_params example_next_locals = [0, 2]"
    "take (parent_size example_evolution) (population example_next_locals) = [[0, 0], [1, 1]]"
    "evaluated example_counted = []"
    "evaluated example_next = [[0, 0], [1, 1], [1, 0], [1, 0]]"
    by (simp_all add: example_next_locals_def example_reevaluated_def example_next_def
        example_selecting_def example_evaluated_def example_counted_def example_evolution_def
        evaluated_def)
  then have run: "fresh example_evolution \<and>
      generation example_collaborators example_evolution example_samples example_draws 0 =
        Some (Inr (example_counted, example_locals)) \<and>
      search_iter example_collaborators (example_draws 0) 0 (example_counted, example_locals) =
        Some (Inr (example_next, example_next_locals)) \<and>
      evaluated example_counted = [] \<and>
      evaluated example_next = [[0, 0], [1, 1], [1, 0], [1, 0]] \<and>
      generation example_collaborators example_evolution example_samples example_draws 1 =
        Some (Inr (example_next, example_next_locals)) \<and>
      drop (parent_size example_evolution) (population example_next_locals) = [[0, 1], [0, 1]] \<and>
      evaluate_population example_collaborators 1 example_next example_next_locals =
        Inr (([0, 2, 1, 1], [1, 3, 2, 2], [0, 2, 1, 1], [1, 1, 1, 1]), example_reevaluated) \<and>
      calls example_reevaluated = calls example_next @ [Evaluate [0, 1], Evaluate [0, 1]] \<and>
      parents_params example_next_locals = [0, 2] \<and>
      take (parent_size example_evolution) (population example_next_locals) = [[0, 0], [1, 1]]"
    using example_fresh gen example_iter example_generation_1 example_evaluate_1 by simp
  show ?thesis
    by (insert evaluation_of_new_members [OF example_fresh example_generation_1]
          evaluation_of_new_members [OF example_fresh gen]) (rule run)
qed

text \<open>
  C5, as the code has it. When \<^verbatim>\<open>sample_random_population(n)\<close> returns, it returns
  \<open>n\<close> genes, each of which passed \<^verbatim>\<open>_check_constraints\<close>. The genes collected are
  not compared with each other, so the same gene can be returned several times.
\<close>

theorem sample_random_population_valid:
  "sample_random_population c s n rs = Some (Inr (pop, s')) \<Longrightarrow>
   length pop = n \<and> (\<forall>gene \<in> set pop. fst (check_constraints c s gene))"
proof -
  assume "sample_random_population c s n rs = Some (Inr (pop, s'))"
  then have "sample_loop c n rs s 0 [] = Some (Inr (pop, s'))"
    by (simp add: sample_random_population_def)
  from sample_loop_result[OF this]
  obtain new where "length pop = n" and "pop = [] @ new"
    and "\<forall>g \<in> set new. fst (check_constraints c s g) \<and> in_space s g"
    by auto
  then show ?thesis by simp
qed

theorem sample_random_population_valid_witness:
  "sample_random_population example_collaborators example_evolution 4 example_samples =
     Some (Inr ([[0, 0], [1, 1], [1, 0], [1, 0]], example_evolution)) \<and>
   length [[0, 0], [1, 1], [1, 0], [1, 0 :: int]] = 4 \<and>
   list_all (\<lambda>gene. fst (check_constraints example_collaborators example_evolution gene))
     [[0, 0], [1, 1], [1, 0], [1, 0]]"
  using sample_random_population_valid [OF example_sample] example_sample
  by (simp add: list_all_iff)

theorem sample_random_population_distinct_counterexample:
  "sample_random_population example_collaborators example_evolution 4 example_samples =
     Some (Inr ([[0, 0], [1, 1], [1, 0], [1, 0]], example_evolution)) \<and>
   \<not> distinct [[0, 0], [1, 1], [1, 0], [1, 0 :: int]]"
  using example_sample by simp

text \<open>
  C9. Closure of the search space. The genes \<^verbatim>\<open>sample_random_population\<close> returns
  lie in the search space; a mutated child of a parent in the space lies in it;
  a crossed-over child of two parents in the space lies in it; and so, in a run
  of \<^verbatim>\<open>search\<close>, does every member of the population of every generation.
\<close>

theorem gene_space_closure:
  "(sample_random_population c s n rs = Some (Inr (pop, s')) \<longrightarrow>
      (\<forall>gene \<in> set pop. in_space s gene)) \<and>
   (in_space s parent \<and> mutation s u r parent = Inr child \<longrightarrow> in_space s child) \<and>
   (in_space s g0 \<and> in_space s g1 \<and> crossover s v [g0, g1] = Inr child' \<longrightarrow>
      in_space s child') \<and>
   (fresh s \<and> generation c s rs' d i = Some (Inr (s'', l)) \<longrightarrow>
      (\<forall>gene \<in> set (population l). in_space s gene))"
proof (intro conjI impI)
  assume "sample_random_population c s n rs = Some (Inr (pop, s'))"
  then show "\<forall>gene \<in> set pop. in_space s gene"
    using sample_loop_result[of c n rs s 0 "[]" pop s']
    by (auto simp: sample_random_population_def)
next
  assume "in_space s parent \<and> mutation s u r parent = Inr child"
  then show "in_space s child" using mutation_in_space by blast
next
  assume "in_space s g0 \<and> in_space s g1 \<and> crossover s v [g0, g1] = Inr child'"
  then show "in_space s child'"
    using crossover_in_space[of "[g0, g1]" s v child'] by simp
next
  assume "fresh s \<and> generation c s rs' d i = Some (Inr (s'', l))"
  then have "loop_invariant c s i s'' l" using generation_invariant by blast
  then have same: "same_settings s s''"
    and space: "\<forall>g \<in> set (all_population s''). in_space s'' g"
    and sub: "\<forall>g \<in> set (population l). g \<in> set (all_population s'')"
    unfolding loop_invariant_def Let_def list_all_iff by simp_all
  have "in_space s'' g = in_space s g" for g
    using same by (intro in_space_same_allowed) (simp add: same_settings_def)
  then show "\<forall>gene \<in> set (population l). in_space s gene"
    using space sub by blast
qed

theorem gene_space_closure_witness:
  "sample_random_population example_collaborators example_evolution 4 example_samples =
     Some (Inr ([[0, 0], [1, 1], [1, 0], [1, 0]], example_evolution)) \<and>
   list_all (in_space example_evolution) [[0, 0], [1, 1], [1, 0], [1, 0]] \<and>
   mutation example_evolution high_low half_draws [0, 0] = Inr [0, 1] \<and>
   crossover example_evolution low_high [[1, 0], [0, 1]] = Inr [1, 1] \<and>
   in_space example_evolution [0, 1] \<and> in_space example_evolution [1, 1] \<and>
   fresh example_evolution \<and>
   generation example_collaborators example_evolution example_samples example_draws 1 =
     Some (Inr (example_next, example_next_locals)) \<and>
   list_all (in_space example_evolution) (population example_next_locals)"
proof -
  have mut: "mutation example_evolution high_low half_draws [0, 0] = Inr [0, 1]"
    by (simp add: mutation_def gene_size_def example_evolution_def high_low_def half_draws_def
        choices_def index_def upt_rec)
  have cross: "crossover example_evolution low_high [[1, 0], [0, 1]] = Inr [1, 1]"
    by (simp add: crossover_def gene_size_def example_evolution_def low_high_def index_def
        upt_rec)
  have space: "in_space example_evolution [0, 0]" "in_space example_evolution [1, 0]"
    "in_space example_evolution [0, 1]"
    by (simp_all add: in_space_def example_evolution_def)
  show ?thesis
    using gene_space_closure [of example_collaborators example_evolution 4 example_samples
        "[[0, 0], [1, 1], [1, 0], [1, 0]]" example_evolution "[0, 0]" high_low half_draws
        "[0, 1]" "[1, 0]" "[0, 1]" low_high "[1, 1]" example_samples example_draws 1
        example_next example_next_locals]
      example_sample mut cross space example_fresh example_generation_1
    by (simp add: list_all_iff)
qed

text \<open>
  C4. A run in which a child accepted into a generation's population has the
  GeneKey of a gene seen before in the same run. In generation 0 of the example
  the mutation loop accepts the child 01, which the counter does not hold; the
  crossover loop then produces 01 again, and since the counter is updated only
  after both loops, \<^verbatim>\<open>_is_seen_before\<close> is False for it and it is accepted too. The
  next population holds 01 twice, the history holds it twice, and it counts 2.
\<close>

theorem duplicate_children_example:
  "search example_collaborators example_evolution example_samples example_draws =
     Some (Inr (example_next, example_next_locals)) \<and>
   mutation_loop example_collaborators [[0, 0], [1, 1]] (mutation_draws (example_draws 0))
     example_selecting 0 [] = Some (Inr ([[0, 1]], example_selecting)) \<and>
   crossover_loop example_collaborators [[0, 0], [1, 1]] (crossover_draws (example_draws 0))
     example_selecting 0 [] = Some (Inr ([[0, 1]], example_selecting)) \<and>
   population example_next_locals = [[0, 0], [1, 1], [0, 1], [0, 1]] \<and>
   all_population example_next = [[0, 0], [1, 1], [1, 0], [1, 0], [0, 1], [0, 1]] \<and>
   count_of example_next (gene_to_key example_collaborators [0, 1]) = 2"
proof -
  have "n_iter example_evolution = 1" by (simp add: example_evolution_def)
  then have "search example_collaborators example_evolution example_samples example_draws =
      Some (Inr (example_next, example_next_locals))"
    by (simp only: search_def example_generation_1)
  moreover have "population example_next_locals = [[0, 0], [1, 1], [0, 1], [0, 1]]"
    "all_population example_next = [[0, 0], [1, 1], [1, 0], [1, 0], [0, 1], [0, 1]]"
    "count_of example_next (gene_to_key example_collaborators [0, 1]) = 2"
    by (simp_all add: example_next_locals_def example_next_def count_of_def
        example_collaborators_def)
  ultimately show ?thesis using example_mutation example_crossover by simp
qed

end
